theory Spec2Isabelle
  imports Complex_Main "HOL-Library.Product_Lexorder" "HOL-Library.Sublist"
begin

section \<open>Process records (process.py)\<close>

text \<open>
  A \<open>Process\<close> object carries six private integer or string attributes. Python integers
  are unbounded, so every counter is an \<open>int\<close>. The attribute \<open>__id\<close> is called \<open>pid\<close>
  here and \<open>__comp_time\<close> is \<open>comp_time\<close>; the read accessor \<open>completion_time\<close>, which
  asserts that the process is done, is a function of its own.
\<close>

record process =
  pid :: string
  ex_time :: int
  arrival_time :: int
  processed_time :: int
  comp_time :: int
  wait_time :: int

text \<open>
  Every failure of the source is a value. The first five are the \<open>assert\<close> statements of
  the two modules, one constructor per assertion message; the others are the exceptions
  the interpreter raises by itself.
\<close>

datatype error =
    RunningTimeNotPositive   \<comment> \<open>Process running_time must be > 0\<close>
  | NegativeWait             \<comment> \<open>Cannot wait for negative time\<close>
  | OngoingProcess           \<comment> \<open>cannot get completion time for ongoing process\<close>
  | Interrupted              \<comment> \<open>FIFO / SJF Should not interrupt running processes\<close>
  | TimeSliceNotPositive     \<comment> \<open>Round Robin time slice must be positive\<close>
  | IndexError               \<comment> \<open>\<open>runnable[0]\<close> on an empty list\<close>
  | AttributeError           \<comment> \<open>an attribute of \<open>None\<close>\<close>
  | ZeroDivisionError        \<comment> \<open>the averages over an empty list of done processes\<close>

definition Process :: "string \<Rightarrow> int \<Rightarrow> int \<Rightarrow> process" where
  "Process i e a =
     \<lparr>pid = i, ex_time = e, arrival_time = a, processed_time = 0, comp_time = 0, wait_time = 0\<rparr>"

definition is_done :: "process \<Rightarrow> bool" where
  "is_done p = (processed_time p \<ge> ex_time p)"

definition time_left :: "process \<Rightarrow> int" where
  "time_left p = ex_time p - processed_time p"

definition completion_time :: "process \<Rightarrow> error + int" where
  "completion_time p = (if is_done p then Inr (comp_time p) else Inl OngoingProcess)"

text \<open>\<open>run\<close> returns the updated process with the pair \<open>(time_ran, time_leftover)\<close>.\<close>

definition run :: "process \<Rightarrow> int \<Rightarrow> error + (process \<times> int \<times> int)" where
  "run p running_time =
     (if \<not> running_time > 0 then Inl RunningTimeNotPositive
      else let time_ran = min (time_left p) running_time;
               p1 = p\<lparr>processed_time := processed_time p + time_ran\<rparr>;
               time_leftover = running_time - time_ran;
               p2 = p1\<lparr>comp_time := comp_time p1 + time_ran\<rparr>
           in Inr (p2, time_ran, time_leftover))"

definition wait :: "process \<Rightarrow> int \<Rightarrow> error + process" where
  "wait p waiting_time =
     (if \<not> waiting_time \<ge> 0 then Inl NegativeWait
      else let p1 = p\<lparr>wait_time := wait_time p + waiting_time\<rparr>
           in Inr (p1\<lparr>comp_time := comp_time p1 + waiting_time\<rparr>))"

definition wait_arrival :: "process \<Rightarrow> int \<Rightarrow> error + (process \<times> bool)" where
  "wait_arrival p waiting_time =
     (if \<not> waiting_time \<ge> 0 then Inl NegativeWait
      else let arrival_wait_time = min (arrival_time p) waiting_time;
               p1 = p\<lparr>arrival_time := arrival_time p - arrival_wait_time\<rparr>;
               waiting_time' = waiting_time - arrival_wait_time
           in case wait p1 waiting_time' of
                Inl e \<Rightarrow> Inl e
              | Inr p2 \<Rightarrow> Inr (p2, arrival_time p2 = 0))"

text \<open>\<open>__lt__\<close>: by arrival time, ties broken by execution time.\<close>

definition Process_lt :: "process \<Rightarrow> process \<Rightarrow> bool" where
  "Process_lt p other =
     (if arrival_time p = arrival_time other then ex_time p < ex_time other
      else arrival_time p < arrival_time other)"

section \<open>The two library operations on lists of processes\<close>

text \<open>
  \<open>list.sort()\<close> is a stable sort that compares with \<open>__lt__\<close> only. \<open>__lt__\<close> is the strict
  lexicographic order of the pair \<open>(arrival_time, ex_time)\<close>, so the sort is the stable
  sort by that key.
\<close>

definition proc_key :: "process \<Rightarrow> int \<times> int" where
  "proc_key p = (arrival_time p, ex_time p)"

definition sort_procs :: "process list \<Rightarrow> process list" where
  "sort_procs ps = sort_key proc_key ps"

text \<open>
  \<open>bisect.insort(a, x)\<close> is \<open>a.insert(bisect_right(a, x), x)\<close>, and \<open>bisect_right\<close> is the
  binary search
  \<^verbatim>\<open>
    while lo < hi:
        mid = (lo + hi) // 2
        if x < a[mid]: hi = mid
        else: lo = mid + 1
    return lo
  \<close>
  started at \<open>lo = 0\<close>, \<open>hi = len(a)\<close>; \<open>mid\<close> is always a valid index.
\<close>

function bisect_right :: "process list \<Rightarrow> process \<Rightarrow> nat \<Rightarrow> nat \<Rightarrow> nat" where
  "bisect_right a x lo hi =
     (if lo < hi
      then let mid = (lo + hi) div 2
           in if Process_lt x (a ! mid) then bisect_right a x lo mid
              else bisect_right a x (mid + 1) hi
      else lo)"
  by pat_completeness auto
termination
  by (relation "measure (\<lambda>(a, x, lo, hi). hi - lo)") auto

declare bisect_right.simps [simp del]

definition insort :: "process list \<Rightarrow> process \<Rightarrow> process list" where
  "insort a x = (let i = bisect_right a x 0 (length a) in take i a @ [x] @ drop i a)"

section \<open>Scheduler state (scheduler.py)\<close>

text \<open>
  The state of a \<open>Scheduler\<close> object. The class of the object (which \<open>step\<close> and
  \<open>add_runnable\<close> it has) is the \<open>policy\<close>, passed to every operation; Round-Robin carries its
  \<open>time_slice\<close>. The listener lists and \<open>verbose\<close> only select which callbacks are called, and
  a callback returns nothing the scheduler reads, so they are left out, as is the \<open>title\<close>
  entry of the statistics.

  A process is a value here and an object in Python. The constructor deep-copies every
  process, and each queue operation moves an object from one list to another, so a list
  of values describes the lists of objects as long as no object sits in two lists. Only
  the loop over the waiting list could leave an object in two lists, were a process to
  arrive that is not at the head of the list; the waiting list is kept in order of
  arrival, so this does not happen in a state the scheduler reaches (lemmas
  \<open>reachable_waiting_ok\<close> and \<open>arrivals_partition\<close> below).
\<close>

record scheduler =
  done_processes :: "process list"
  runnable :: "process list"
  waiting :: "process list"
  time :: int
  curr_process :: "process option"
  step_time_ran :: int

datatype policy = FIFO | SJF | RoundRobin int | SRTF

definition is_done_sched :: "scheduler \<Rightarrow> bool" where
  "is_done_sched s = (length (runnable s) = 0 \<and> length (waiting s) = 0)"

text \<open>\<open>add_runnable\<close>: \<open>append\<close> for FIFO and Round-Robin, \<open>bisect.insort\<close> for SJF and SRTF.\<close>

fun add_runnable :: "policy \<Rightarrow> process \<Rightarrow> process list \<Rightarrow> process list" where
  "add_runnable FIFO p r = r @ [p]"
| "add_runnable SJF p r = insort r p"
| "add_runnable (RoundRobin ts) p r = r @ [p]"
| "add_runnable SRTF p r = insort r p"

text \<open>
  The constructors. \<open>Scheduler.__init__\<close> splits the processes by \<open>arrival_time <= 0\<close> and
  sorts the waiting list; SJF and SRTF sort the runnable list as well; Round-Robin asserts
  a positive time slice first.
\<close>

definition Scheduler_init :: "process list \<Rightarrow> scheduler" where
  "Scheduler_init processes =
     \<lparr>done_processes = [],
      runnable = filter (\<lambda>p. arrival_time p \<le> 0) processes,
      waiting = sort_procs (filter (\<lambda>p. \<not> arrival_time p \<le> 0) processes),
      time = 0, curr_process = None, step_time_ran = 0\<rparr>"

fun init :: "policy \<Rightarrow> process list \<Rightarrow> error + scheduler" where
  "init FIFO processes = Inr (Scheduler_init processes)"
| "init SJF processes =
     (let s = Scheduler_init processes in Inr (s\<lparr>runnable := sort_procs (runnable s)\<rparr>))"
| "init (RoundRobin ts) processes =
     (if \<not> ts > 0 then Inl TimeSliceNotPositive else Inr (Scheduler_init processes))"
| "init SRTF processes =
     (let s = Scheduler_init processes in Inr (s\<lparr>runnable := sort_procs (runnable s)\<rparr>))"

text \<open>
  \<open>Scheduler.get_next_process\<close>, the part shared by the four policies: with nothing
  runnable and something waiting, the head of the waiting list is taken out, the clock
  stalls for its arrival time, and it is made runnable with arrival time 0.
\<close>

definition get_next_process_base :: "policy \<Rightarrow> scheduler \<Rightarrow> scheduler" where
  "get_next_process_base pol s =
     (if length (runnable s) = 0 \<and> length (waiting s) > 0
      then let next_process = hd (waiting s);
               s1 = s\<lparr>waiting := tl (waiting s)\<rparr>;
               stall_time = arrival_time next_process;
               next_process' = next_process\<lparr>arrival_time := 0\<rparr>;
               s2 = s1\<lparr>time := time s1 + stall_time\<rparr>
           in s2\<lparr>runnable := add_runnable pol next_process' (runnable s2)\<rparr>
      else s)"

text \<open>
  The overriding \<open>get_next_process\<close> is the same in the four subclasses: the shared part,
  then \<open>runnable[0]\<close> is popped. It returns the process with the state.
\<close>

definition get_next_process :: "policy \<Rightarrow> scheduler \<Rightarrow> error + (process \<times> scheduler)" where
  "get_next_process pol s =
     (let s1 = get_next_process_base pol s
      in case runnable s1 of
           [] \<Rightarrow> Inl IndexError
         | c # rest \<Rightarrow> Inr (c, s1\<lparr>runnable := rest\<rparr>))"

section \<open>The steps of the four policies\<close>

text \<open>
  Each \<open>step\<close> method is a straight-line sequence of the same few blocks of statements,
  in an order that depends on the policy. A block is a \<open>phase\<close>; it reads and writes the
  scheduler's attributes only (the quantum that was run is kept in \<open>_step_time_ran\<close>, the
  running process in \<open>_curr_process\<close>), so it is a function from state to state or error.
\<close>

datatype phase =
    Select         \<comment> \<open>\<open>self._curr_process = self.get_next_process()\<close>\<close>
  | RunCurrent     \<comment> \<open>the quantum is chosen and \<open>self._curr_process.run(ex_time)\<close> consumes it\<close>
  | ProcessDone    \<comment> \<open>\<open>self._on_process_done()\<close>\<close>
  | AdvanceClock   \<comment> \<open>\<open>self.time += self.step_time_ran\<close>\<close>
  | AccrueWait     \<comment> \<open>\<open>for process in self.runnable: process.wait(...)\<close>\<close>
  | Arrivals       \<comment> \<open>\<open>for process in self.waiting: if process.wait_arrival(...): ...\<close>\<close>
  | Requeue        \<comment> \<open>\<open>if self.curr_process.is_done: ... else: self.add_runnable(...)\<close>\<close>

fun phases :: "policy \<Rightarrow> phase list" where
  "phases FIFO = [Select, RunCurrent, ProcessDone, AdvanceClock, AccrueWait, Arrivals]"
| "phases SJF = [Select, RunCurrent, ProcessDone, AdvanceClock, AccrueWait, Arrivals]"
| "phases (RoundRobin ts) = [Select, RunCurrent, AccrueWait, Arrivals, Requeue, AdvanceClock]"
| "phases SRTF = [Select, RunCurrent, AccrueWait, Arrivals, Requeue, AdvanceClock]"

definition select :: "policy \<Rightarrow> scheduler \<Rightarrow> error + scheduler" where
  "select pol s =
     (case get_next_process pol s of
        Inl e \<Rightarrow> Inl e
      | Inr (c, s1) \<Rightarrow> Inr (s1\<lparr>curr_process := Some c\<rparr>))"

text \<open>
  The running time asked of \<open>run\<close> (the local variable \<open>ex_time\<close> of each \<open>step\<close>): the
  whole execution time for FIFO and SJF, the time slice for Round-Robin, and for SRTF
  the time left, replaced by the arrival time of the first waiting process when the
  time left exceeds that arrival time plus that process's own time left.
\<close>

fun quantum :: "policy \<Rightarrow> scheduler \<Rightarrow> process \<Rightarrow> int" where
  "quantum FIFO s c = ex_time c"
| "quantum SJF s c = ex_time c"
| "quantum (RoundRobin ts) s c = ts"
| "quantum SRTF s c =
     (let ex = time_left c
      in if length (waiting s) > 0
         then let first_waiting = hd (waiting s);
                  wait_comp_time = arrival_time first_waiting + time_left first_waiting
              in if ex > wait_comp_time then arrival_time first_waiting else time_left c
         else ex)"

fun asserts_no_leftover :: "policy \<Rightarrow> bool" where
  "asserts_no_leftover FIFO = True"
| "asserts_no_leftover SJF = True"
| "asserts_no_leftover (RoundRobin ts) = False"
| "asserts_no_leftover SRTF = False"

definition run_current :: "policy \<Rightarrow> scheduler \<Rightarrow> error + scheduler" where
  "run_current pol s =
     (case curr_process s of
        None \<Rightarrow> Inl AttributeError
      | Some c \<Rightarrow>
          (case run c (quantum pol s c) of
             Inl e \<Rightarrow> Inl e
           | Inr (c', time_ran, time_leftover) \<Rightarrow>
               if asserts_no_leftover pol \<and> time_leftover \<noteq> 0 then Inl Interrupted
               else Inr (s\<lparr>curr_process := Some c', step_time_ran := time_ran\<rparr>)))"

text \<open>
  \<open>_on_process_done\<close> appends the current process to the done list. Every step sets the
  current process before it gets here; were it still \<open>None\<close>, Python would append \<open>None\<close>
  and fail on its attributes when the statistics are read, which is the error given here.
\<close>

definition on_process_done :: "scheduler \<Rightarrow> error + scheduler" where
  "on_process_done s =
     (case curr_process s of
        None \<Rightarrow> Inl AttributeError
      | Some c \<Rightarrow> Inr (s\<lparr>done_processes := done_processes s @ [c]\<rparr>))"

definition advance_clock :: "scheduler \<Rightarrow> scheduler" where
  "advance_clock s = s\<lparr>time := time s + step_time_ran s\<rparr>"

fun wait_all :: "int \<Rightarrow> process list \<Rightarrow> error + process list" where
  "wait_all d [] = Inr []"
| "wait_all d (p # ps) =
     (case wait p d of
        Inl e \<Rightarrow> Inl e
      | Inr p' \<Rightarrow> (case wait_all d ps of Inl e \<Rightarrow> Inl e | Inr ps' \<Rightarrow> Inr (p' # ps')))"

definition accrue_wait :: "scheduler \<Rightarrow> error + scheduler" where
  "accrue_wait s =
     (case wait_all (step_time_ran s) (runnable s) of
        Inl e \<Rightarrow> Inl e
      | Inr r \<Rightarrow> Inr (s\<lparr>runnable := r\<rparr>))"

text \<open>
  The loop over the waiting list,
  \<^verbatim>\<open>
    for process in self.waiting:
        if process.wait_arrival(self._step_time_ran):
            self.add_runnable(process)
            self._waiting = self._waiting[1:]
  \<close>
  walks the list object it started with: the assignment in its body binds \<open>_waiting\<close> to a
  new, shorter list and leaves the walked one alone. So \<open>wait_arrival\<close> is called on every
  waiting process, in order; each one that answers true is added to the runnable list, and
  for each of them the waiting list loses its head (a slice of an empty list is empty, as
  \<open>drop\<close> is). The list left is the old one, its processes updated, without its first \<open>k\<close>
  elements, \<open>k\<close> the number of processes that arrived.
\<close>

fun wait_arrival_all :: "int \<Rightarrow> process list \<Rightarrow> error + (process \<times> bool) list" where
  "wait_arrival_all d [] = Inr []"
| "wait_arrival_all d (p # ps) =
     (case wait_arrival p d of
        Inl e \<Rightarrow> Inl e
      | Inr r \<Rightarrow> (case wait_arrival_all d ps of Inl e \<Rightarrow> Inl e | Inr rs \<Rightarrow> Inr (r # rs)))"

definition arrivals :: "policy \<Rightarrow> scheduler \<Rightarrow> error + scheduler" where
  "arrivals pol s =
     (case wait_arrival_all (step_time_ran s) (waiting s) of
        Inl e \<Rightarrow> Inl e
      | Inr rs \<Rightarrow>
          let arrived = map fst (filter snd rs)
          in Inr (s\<lparr>runnable := foldl (\<lambda>r p. add_runnable pol p r) (runnable s) arrived,
                    waiting := drop (length arrived) (map fst rs)\<rparr>))"

definition requeue :: "policy \<Rightarrow> scheduler \<Rightarrow> error + scheduler" where
  "requeue pol s =
     (case curr_process s of
        None \<Rightarrow> Inl AttributeError
      | Some c \<Rightarrow>
          if is_done c then on_process_done s
          else Inr (s\<lparr>runnable := add_runnable pol c (runnable s)\<rparr>))"

fun exec_phase :: "policy \<Rightarrow> phase \<Rightarrow> scheduler \<Rightarrow> error + scheduler" where
  "exec_phase pol Select s = select pol s"
| "exec_phase pol RunCurrent s = run_current pol s"
| "exec_phase pol ProcessDone s = on_process_done s"
| "exec_phase pol AdvanceClock s = Inr (advance_clock s)"
| "exec_phase pol AccrueWait s = accrue_wait s"
| "exec_phase pol Arrivals s = arrivals pol s"
| "exec_phase pol Requeue s = requeue pol s"

fun exec_phases :: "policy \<Rightarrow> phase list \<Rightarrow> scheduler \<Rightarrow> error + scheduler" where
  "exec_phases pol [] s = Inr s"
| "exec_phases pol (ph # phs) s =
     (case exec_phase pol ph s of Inl e \<Rightarrow> Inl e | Inr s' \<Rightarrow> exec_phases pol phs s')"

definition step :: "policy \<Rightarrow> scheduler \<Rightarrow> error + scheduler" where
  "step pol s = exec_phases pol (phases pol) s"

section \<open>Running a scheduler to the end\<close>

text \<open>
  \<open>Scheduler.run\<close>: the loop \<open>while not self.is_done: self.step()\<close>, then the statistics.
  The loop stops at the first failing step, as the exception would; that it always stops
  is proved further down.
\<close>

function run_loop :: "policy \<Rightarrow> scheduler \<Rightarrow> error + scheduler" where
  "run_loop pol s =
     (if is_done_sched s then Inr s
      else case step pol s of Inl e \<Rightarrow> Inl e | Inr s' \<Rightarrow> run_loop pol s')"
  by pat_completeness auto

text \<open>
  The statistics are two sums and a count over the done list, each sum then divided by
  the count with Python's true division \<open>/\<close>. The quotients are rationals here; the
  rounding of the floating-point result is not modelled. Reading \<open>completion_time\<close>
  asserts that the process is done; dividing by a count of 0 raises \<open>ZeroDivisionError\<close>.
\<close>

record stats =
  avg_comp_time :: rat
  avg_wait_time :: rat
  num_processes_ran :: nat

fun sum_stats :: "process list \<Rightarrow> int \<times> int \<times> nat \<Rightarrow> error + (int \<times> int \<times> nat)" where
  "sum_stats [] acc = Inr acc"
| "sum_stats (p # ps) (c, w, n) =
     (case completion_time p of
        Inl e \<Rightarrow> Inl e
      | Inr ct \<Rightarrow> sum_stats ps (c + ct, w + wait_time p, n + 1))"

definition Scheduler_run :: "policy \<Rightarrow> scheduler \<Rightarrow> error + (scheduler \<times> stats)" where
  "Scheduler_run pol s =
     (case run_loop pol s of
        Inl e \<Rightarrow> Inl e
      | Inr s' \<Rightarrow>
          (case sum_stats (done_processes s') (0, 0, 0) of
             Inl e \<Rightarrow> Inl e
           | Inr (c, w, n) \<Rightarrow>
               if n = 0 then Inl ZeroDivisionError
               else Inr (s', \<lparr>avg_comp_time = of_int c / of_nat n,
                               avg_wait_time = of_int w / of_nat n,
                               num_processes_ran = n\<rparr>)))"

text \<open>A scheduler is constructed from a list of processes and run, as the simulator does.\<close>

definition Simulator_run :: "policy \<Rightarrow> process list \<Rightarrow> error + (scheduler \<times> stats)" where
  "Simulator_run pol processes =
     (case init pol processes of Inl e \<Rightarrow> Inl e | Inr s \<Rightarrow> Scheduler_run pol s)"

section \<open>Notions used in the statements\<close>

text \<open>The effect of \<open>wait\<close> and of \<open>run\<close> on a process, and what \<open>wait_arrival\<close> leaves of it.\<close>

definition waited :: "int \<Rightarrow> process \<Rightarrow> process" where
  "waited d p = p\<lparr>wait_time := wait_time p + d, comp_time := comp_time p + d\<rparr>"

definition ran_proc :: "int \<Rightarrow> process \<Rightarrow> process" where
  "ran_proc d p = p\<lparr>processed_time := processed_time p + d, comp_time := comp_time p + d\<rparr>"

definition arrived_proc :: "int \<Rightarrow> process \<Rightarrow> process" where
  "arrived_proc d p =
     p\<lparr>arrival_time := arrival_time p - min (arrival_time p) d,
       wait_time := wait_time p + (d - min (arrival_time p) d),
       comp_time := comp_time p + (d - min (arrival_time p) d)\<rparr>"

text \<open>
  The waiting processes that arrive within \<open>d\<close>, as they enter the runnable list, and the
  waiting list that the loop over it leaves.
\<close>

definition arrived_list :: "int \<Rightarrow> process list \<Rightarrow> process list" where
  "arrived_list d ws = map (arrived_proc d) (filter (\<lambda>p. arrival_time p \<le> d) ws)"

definition still_waiting :: "int \<Rightarrow> process list \<Rightarrow> process list" where
  "still_waiting d ws =
     drop (length (filter (\<lambda>p. arrival_time p \<le> d) ws)) (map (arrived_proc d) ws)"

text \<open>
  The state after a successful step in closed form, from the state \<open>s0\<close> left by the
  shared part of \<open>get_next_process\<close>, whose runnable list is \<open>c # rest\<close>.
\<close>

definition after_step :: "policy \<Rightarrow> scheduler \<Rightarrow> process \<Rightarrow> process list \<Rightarrow> scheduler" where
  "after_step pol s0 c rest =
     (let d = min (time_left c) (quantum pol s0 c);
          c' = ran_proc d c;
          r = foldl (\<lambda>r p. add_runnable pol p r) (map (waited d) rest)
                (arrived_list d (waiting s0));
          requeued = (\<not> asserts_no_leftover pol \<and> \<not> is_done c')
      in \<lparr>done_processes = (if requeued then done_processes s0 else done_processes s0 @ [c']),
          runnable = (if requeued then add_runnable pol c' r else r),
          waiting = still_waiting d (waiting s0),
          time = time s0 + d,
          curr_process = Some c',
          step_time_ran = d\<rparr>)"

text \<open>The measure of the work left in a list of processes; it bounds the number of steps.\<close>

definition work :: "process list \<Rightarrow> nat" where
  "work ps = sum_list (map (\<lambda>p. nat (time_left p) + 1) ps)"

text \<open>
  The states a scheduler goes through: \<open>steps pol s s'\<close> when \<open>s'\<close> comes from \<open>s\<close> by
  successful steps, and \<open>reachable pol procs s\<close> when \<open>s\<close> comes so from the state the
  constructor makes of the processes \<open>procs\<close>.
\<close>

inductive steps :: "policy \<Rightarrow> scheduler \<Rightarrow> scheduler \<Rightarrow> bool" for pol :: policy where
  steps_refl: "steps pol s s"
| steps_step: "steps pol s s' \<Longrightarrow> step pol s' = Inr s'' \<Longrightarrow> steps pol s s''"

definition reachable :: "policy \<Rightarrow> process list \<Rightarrow> scheduler \<Rightarrow> bool" where
  "reachable pol procs s = (\<exists>s0. init pol procs = Inr s0 \<and> steps pol s0 s)"

text \<open>A process as its constructor leaves it: nothing processed, nothing waited.\<close>

definition fresh :: "process \<Rightarrow> bool" where
  "fresh p = (processed_time p = 0 \<and> comp_time p = 0 \<and> wait_time p = 0)"

text \<open>
  The counters of every queued process add up, and under FIFO and SJF a queued process
  has not run yet.
\<close>

definition queued_ok :: "policy \<Rightarrow> process \<Rightarrow> bool" where
  "queued_ok pol p =
     (comp_time p = wait_time p + processed_time p
      \<and> (asserts_no_leftover pol \<longrightarrow> processed_time p = 0))"

text \<open>The counters of a finished process.\<close>

definition done_ok :: "process \<Rightarrow> bool" where
  "done_ok p = (comp_time p = wait_time p + processed_time p \<and> processed_time p = ex_time p)"

text \<open>The three processes of the scenarios.\<close>

definition three_procs :: "process list" where
  "three_procs = [Process ''P1'' 5 0, Process ''P2'' 3 0, Process ''P3'' 8 0]"

text \<open>
  The waiting list is in the order of \<open>__lt__\<close> and holds processes yet to arrive only.
\<close>

definition waiting_ok :: "process list \<Rightarrow> bool" where
  "waiting_ok ws = (sorted (map proc_key ws) \<and> list_all (\<lambda>w. 0 < arrival_time w) ws)"

text \<open>A process run to its end.\<close>

definition finished :: "process \<Rightarrow> process" where
  "finished c = c\<lparr>processed_time := ex_time c, comp_time := comp_time c + time_left c\<rparr>"

text \<open>\<open>precedes a b phs\<close>: phase \<open>a\<close> occurs in \<open>phs\<close>, and \<open>b\<close> after its first occurrence.\<close>

fun precedes :: "phase \<Rightarrow> phase \<Rightarrow> phase list \<Rightarrow> bool" where
  "precedes a b [] = False"
| "precedes a b (x # xs) = (if x = a then b \<in> set xs else precedes a b xs)"

section \<open>Processes and their order\<close>

lemma wait_ok:
  "0 \<le> d \<Longrightarrow> wait p d = Inr (p\<lparr>wait_time := wait_time p + d, comp_time := comp_time p + d\<rparr>)"
  by (simp add: wait_def)

lemma wait_arrival_ok:
  "0 \<le> d \<Longrightarrow> wait_arrival p d = Inr (arrived_proc d p, arrival_time p \<le> d)"
  by (auto simp add: wait_arrival_def wait_def arrived_proc_def Let_def min_def)

lemma wait_all_Inr: "wait_all d ps = Inr ps' \<Longrightarrow> ps' = map (waited d) ps \<and> (ps = [] \<or> 0 \<le> d)"
  by (induction ps arbitrary: ps') (auto simp add: wait_def waited_def split: sum.splits if_splits)

lemma wait_arrival_Inr:
  "wait_arrival p d = Inr r \<Longrightarrow> r = (arrived_proc d p, arrival_time p \<le> d) \<and> 0 \<le> d"
  by (cases "0 \<le> d") (auto simp add: wait_arrival_ok, simp add: wait_arrival_def)

lemma wait_arrival_all_Inr:
  "wait_arrival_all d ps = Inr rs \<Longrightarrow>
     rs = map (\<lambda>p. (arrived_proc d p, arrival_time p \<le> d)) ps \<and> (ps = [] \<or> 0 \<le> d)"
  by (induction ps arbitrary: rs) (auto split: sum.splits dest: wait_arrival_Inr)

lemma wait_all_ok: "0 \<le> d \<Longrightarrow> wait_all d ps = Inr (map (waited d) ps)"
  by (induction ps) (simp_all add: wait_ok waited_def)

lemma wait_arrival_all_ok:
  "0 \<le> d \<Longrightarrow>
     wait_arrival_all d ps = Inr (map (\<lambda>p. (arrived_proc d p, arrival_time p \<le> d)) ps)"
  by (induction ps) (simp_all add: wait_arrival_ok)



lemma run_Inr:
  "run c q = Inr r \<Longrightarrow> 0 < q \<and> r = (ran_proc (min (time_left c) q) c, min (time_left c) q, q - min (time_left c) q)"
  by (auto simp add: run_def ran_proc_def Let_def split: if_splits)

lemma Process_lt_key: "Process_lt a b \<longleftrightarrow> proc_key a < proc_key b"
  by (auto simp add: Process_lt_def proc_key_def less_prod_def)

lemma proc_key_waited [simp]: "proc_key (waited d p) = proc_key p"
  by (simp add: proc_key_def waited_def)

lemma proc_key_ran [simp]: "proc_key (ran_proc d p) = proc_key p"
  by (simp add: proc_key_def ran_proc_def)

section \<open>Insertion into the runnable list\<close>

lemma set_insort: "set (insort a x) = insert x (set a)"
proof -
  have "set (take i a) \<union> set (drop i a) = set a" for i
    using set_append [of "take i a" "drop i a"] by simp
  then show ?thesis by (auto simp add: insort_def Let_def)
qed


lemma insort_Nil: "insort [] x = [x]"
  by (simp add: insort_def bisect_right.simps)

lemma work_simps [simp]: "work [] = 0" "work (p # ps) = nat (time_left p) + 1 + work ps"
  "work (xs @ ys) = work xs + work ys"
  by (simp_all add: work_def)

lemma work_insort: "work (insort r p) = nat (time_left p) + 1 + work r"
proof -
  have "work (take i r) + work (drop i r) = work r" for i
    using work_simps(3) [of "take i r" "drop i r"] by simp
  then show ?thesis by (simp add: insort_def Let_def)
qed

lemma work_waited: "work (map (waited d) ps) = work ps"
  by (induction ps) (simp_all add: waited_def time_left_def)

lemma bisect_right_correct:
  "sorted (map proc_key a) \<Longrightarrow> lo \<le> hi \<Longrightarrow> hi \<le> length a
     \<Longrightarrow> (\<forall>j < lo. proc_key (a ! j) \<le> proc_key x)
     \<Longrightarrow> (\<forall>j. hi \<le> j \<and> j < length a \<longrightarrow> proc_key x < proc_key (a ! j))
     \<Longrightarrow> bisect_right a x lo hi \<le> length a
         \<and> (\<forall>j < bisect_right a x lo hi. proc_key (a ! j) \<le> proc_key x)
         \<and> (\<forall>j. bisect_right a x lo hi \<le> j \<and> j < length a \<longrightarrow> proc_key x < proc_key (a ! j))"
proof (induction a x lo hi rule: bisect_right.induct)
  case (1 a x lo hi)
  note srt = "1.prems"(1)
  have mono: "proc_key (a ! i) \<le> proc_key (a ! j)" if "i \<le> j" "j < length a" for i j
    using srt that sorted_iff_nth_mono [of "map proc_key a"] by auto
  show ?case
  proof (cases "lo < hi")
    case False
    then have "bisect_right a x lo hi = lo" by (simp add: bisect_right.simps [of a x lo hi])
    moreover from False "1.prems"(2) have "lo = hi" by simp
    ultimately show ?thesis using "1.prems" by simp
  next
    case True
    define mid where "mid = (lo + hi) div 2"
    have m: "lo \<le> mid" "mid < hi" using True by (simp_all add: mid_def)
    show ?thesis
    proof (cases "Process_lt x (a ! mid)")
      case lt: True
      have eq: "bisect_right a x lo hi = bisect_right a x lo mid"
        using True lt by (simp add: bisect_right.simps [of a x lo hi] mid_def Let_def)
      have up: "\<forall>j. mid \<le> j \<and> j < length a \<longrightarrow> proc_key x < proc_key (a ! j)"
      proof (intro allI impI)
        fix j assume j: "mid \<le> j \<and> j < length a"
        from lt have "proc_key x < proc_key (a ! mid)" by (simp add: Process_lt_key)
        also have "\<dots> \<le> proc_key (a ! j)" using j by (intro mono) simp_all
        finally show "proc_key x < proc_key (a ! j)" .
      qed
      have "mid \<le> length a" using m "1.prems"(3) by simp
      from "1.IH"(1) [OF True mid_def lt srt m(1) this "1.prems"(4) up]
      show ?thesis unfolding eq by simp
    next
      case ge: False
      have eq: "bisect_right a x lo hi = bisect_right a x (mid + 1) hi"
        using True ge by (simp add: bisect_right.simps [of a x lo hi] mid_def Let_def)
      have lowr: "\<forall>j < mid + 1. proc_key (a ! j) \<le> proc_key x"
      proof (intro allI impI)
        fix j assume j: "j < mid + 1"
        have "mid < length a" using m "1.prems"(3) by simp
        then have "proc_key (a ! j) \<le> proc_key (a ! mid)" using j by (intro mono) simp_all
        also from ge have "\<dots> \<le> proc_key x" by (simp add: Process_lt_key not_less)
        finally show "proc_key (a ! j) \<le> proc_key x" .
      qed
      have "mid + 1 \<le> hi" using m by simp
      from "1.IH"(2) [OF True mid_def ge srt this "1.prems"(3) lowr "1.prems"(5)]
      show ?thesis unfolding eq by simp
    qed
  qed
qed

lemma sorted_insort:
  assumes "sorted (map proc_key a)"
  shows "sorted (map proc_key (insort a x))"
proof -
  define i where "i = bisect_right a x 0 (length a)"
  have "\<forall>j. length a \<le> j \<and> j < length a \<longrightarrow> proc_key x < proc_key (a ! j)" by auto
  from bisect_right_correct [OF assms, of 0 "length a" x, OF _ _ _ this]
  have il: "i \<le> length a" and lo: "\<forall>j < i. proc_key (a ! j) \<le> proc_key x"
    and hi: "\<forall>j. i \<le> j \<and> j < length a \<longrightarrow> proc_key x < proc_key (a ! j)"
    by (simp_all add: i_def)
  have 1: "sorted (map proc_key (take i a))"
    using assms sorted_wrt_take [of "\<lambda>p q. proc_key p \<le> proc_key q" a i] by (simp add: sorted_map)
  have 2: "sorted (map proc_key (drop i a))"
    using assms sorted_wrt_drop [of "\<lambda>p q. proc_key p \<le> proc_key q" a i] by (simp add: sorted_map)
  have 3: "\<forall>y \<in> set (take i a). proc_key y \<le> proc_key x"
    using lo il by (auto simp add: in_set_conv_nth)
  have 4: "\<forall>z \<in> set (drop i a). proc_key x \<le> proc_key z"
  proof
    fix z assume "z \<in> set (drop i a)"
    then obtain k where k: "k < length a - i" "z = a ! (i + k)"
      by (auto simp add: in_set_conv_nth)
    then have "i \<le> i + k \<and> i + k < length a" by simp
    with hi have "proc_key x < proc_key (a ! (i + k))" by blast
    with k show "proc_key x \<le> proc_key z" by simp
  qed
  have 5: "\<forall>y \<in> set (take i a). \<forall>z \<in> set (drop i a). proc_key y \<le> proc_key z"
    using 3 4 by (meson order_trans)
  show ?thesis
    using 1 2 3 4 5 by (simp add: insort_def Let_def i_def [symmetric] sorted_append)
qed

lemma set_add_runnable: "set (add_runnable pol p r) = insert p (set r)"
  by (cases pol) (simp_all add: set_insort)

lemma set_foldl_add_runnable:
  "set (foldl (\<lambda>r p. add_runnable pol p r) r ps) = set r \<union> set ps"
  by (induction ps arbitrary: r) (auto simp add: set_add_runnable)



lemma add_runnable_Nil: "add_runnable pol p [] = [p]"
  by (cases pol) (simp_all add: insort_Nil)

lemma work_add_runnable: "work (add_runnable pol p r) = nat (time_left p) + 1 + work r"
  by (cases pol) (simp_all add: work_insort)

lemma sorted_add_runnable:
  "pol = SJF \<or> pol = SRTF \<Longrightarrow> sorted (map proc_key r) \<Longrightarrow> sorted (map proc_key (add_runnable pol p r))"
  by (auto simp add: sorted_insort)

lemma sorted_foldl_add_runnable:
  "pol = SJF \<or> pol = SRTF \<Longrightarrow> sorted (map proc_key r)
     \<Longrightarrow> sorted (map proc_key (foldl (\<lambda>r p. add_runnable pol p r) r ps))"
  by (induction ps arbitrary: r) (simp_all add: sorted_add_runnable)

lemma foldl_append_runnable: "foldl (\<lambda>r p. r @ [p]) r ps = r @ ps"
  by (induction ps arbitrary: r) simp_all

section \<open>The loop over the waiting list\<close>

lemma length_still_waiting:
  "length (still_waiting d ws) = length ws - length (filter (\<lambda>p. arrival_time p \<le> d) ws)"
  by (simp add: still_waiting_def)


lemma set_still_waiting: "set (still_waiting d ws) \<subseteq> arrived_proc d ` set ws"
  using set_drop_subset [of _ "map (arrived_proc d) ws"] by (simp add: still_waiting_def)

lemma set_arrived_list: "set (arrived_list d ws) \<subseteq> arrived_proc d ` set ws"
  by (auto simp add: arrived_list_def)

lemma sorted_key_arrival: "sorted (map proc_key ws) \<Longrightarrow> sorted (map arrival_time ws)"
  by (induction ws) (auto simp add: proc_key_def less_eq_prod_def)

lemma filter_takeWhile_sorted:
  "sorted (map arrival_time ws) \<Longrightarrow>
     filter (\<lambda>p. arrival_time p \<le> d) ws = takeWhile (\<lambda>p. arrival_time p \<le> d) ws"
proof (induction ws)
  case Nil
  then show ?case by simp
next
  case (Cons w ws)
  show ?case
  proof (cases "arrival_time w \<le> d")
    case True
    with Cons show ?thesis by simp
  next
    case False
    with Cons.prems have "\<forall>p \<in> set ws. \<not> arrival_time p \<le> d" by auto
    then have "filter (\<lambda>p. arrival_time p \<le> d) ws = []" by (simp add: filter_empty_conv)
    with False show ?thesis by simp
  qed
qed

lemma still_waiting_sorted:
  assumes "sorted (map arrival_time ws)"
  shows "still_waiting d ws = map (arrived_proc d) (dropWhile (\<lambda>p. arrival_time p \<le> d) ws)"
  by (simp add: still_waiting_def filter_takeWhile_sorted [OF assms] drop_map dropWhile_eq_drop)

lemma arrived_list_sorted:
  assumes "sorted (map arrival_time ws)"
  shows "arrived_list d ws = map (arrived_proc d) (takeWhile (\<lambda>p. arrival_time p \<le> d) ws)"
  by (simp add: arrived_list_def filter_takeWhile_sorted [OF assms])

text \<open>
  On a waiting list in order of arrival the loop over it moves exactly the processes that
  arrived: they and the processes left are the whole list, none twice and none lost.
\<close>

lemma arrivals_partition:
  assumes "sorted (map arrival_time ws)"
  shows "arrived_list d ws @ still_waiting d ws = map (arrived_proc d) ws"
  by (simp add: arrived_list_sorted [OF assms] still_waiting_sorted [OF assms]
      map_append [symmetric] del: map_append)

lemma dropWhile_sorted_all:
  "sorted (map arrival_time ws) \<Longrightarrow>
     \<forall>p \<in> set (dropWhile (\<lambda>p. arrival_time p \<le> d) ws). d < arrival_time p"
  by (induction ws) auto

lemma waiting_ok_still:
  assumes "waiting_ok ws"
  shows "waiting_ok (still_waiting d ws)"
proof -
  define rs where "rs = dropWhile (\<lambda>p. arrival_time p \<le> d) ws"
  have sa: "sorted (map arrival_time ws)" using assms by (simp add: waiting_ok_def sorted_key_arrival)
  have sw: "still_waiting d ws = map (arrived_proc d) rs"
    by (simp add: still_waiting_sorted [OF sa] rs_def)
  have gt: "\<forall>p \<in> set rs. d < arrival_time p"
    using dropWhile_sorted_all [OF sa] by (simp add: rs_def)
  have "sorted (map proc_key (dropWhile ((\<lambda>p. arrival_time p \<le> d)) ws))"
    using assms sorted_wrt_dropWhile [of "\<lambda>x y. proc_key x \<le> proc_key y" ws]
    by (simp add: waiting_ok_def sorted_map)
  then have srs: "sorted_wrt (\<lambda>x y. proc_key x \<le> proc_key y) rs"
    by (simp add: rs_def sorted_map)
  have "sorted_wrt (\<lambda>x y. proc_key (arrived_proc d x) \<le> proc_key (arrived_proc d y)) rs"
  proof (rule sorted_wrt_mono_rel [OF _ srs])
    fix x y assume "x \<in> set rs" "y \<in> set rs" "proc_key x \<le> proc_key y"
    with gt show "proc_key (arrived_proc d x) \<le> proc_key (arrived_proc d y)"
      by (auto simp add: proc_key_def arrived_proc_def less_eq_prod_def min_def)
  qed
  then have 1: "sorted (map proc_key (map (arrived_proc d) rs))"
    by (simp add: sorted_map sorted_wrt_map)
  have 2: "list_all (\<lambda>w. 0 < arrival_time w) (map (arrived_proc d) rs)"
    using gt by (auto simp add: list_all_iff arrived_proc_def min_def)
  show ?thesis using 1 2 by (simp add: waiting_ok_def sw)
qed

lemma waiting_ok_tl: "waiting_ok (w # ws) \<Longrightarrow> waiting_ok ws"
  by (simp add: waiting_ok_def)

section \<open>The phases of a step\<close>

lemma quantum_frame [simp]:
  "quantum pol (s\<lparr>runnable := r\<rparr>) c = quantum pol s c"
  "quantum pol (s\<lparr>curr_process := x\<rparr>) c = quantum pol s c"
  by (cases pol; simp add: Let_def)+

lemma quantum_frame2 [simp]:
  "quantum pol (s\<lparr>step_time_ran := x\<rparr>) c = quantum pol s c"
  by (cases pol; simp add: Let_def)

lemma quantum_asserts: "asserts_no_leftover pol \<Longrightarrow> quantum pol s c = ex_time c"
  by (cases pol) simp_all

lemma base_cases:
  obtains (same) "get_next_process_base pol s = s"
        | (stall) p ps where "runnable s = []" "waiting s = p # ps"
            "get_next_process_base pol s =
               s\<lparr>waiting := ps, time := time s + arrival_time p,
                 runnable := add_runnable pol (p\<lparr>arrival_time := 0\<rparr>) []\<rparr>"
proof (cases "length (runnable s) = 0 \<and> length (waiting s) > 0")
  case False
  then have "get_next_process_base pol s = s"
    unfolding get_next_process_base_def by (simp only: if_False)
  then show ?thesis by (rule same)
next
  case True
  then obtain p ps where w: "waiting s = p # ps" by (cases "waiting s") auto
  from True have r: "runnable s = []" by simp
  show ?thesis
    by (rule stall [OF r w]) (simp add: get_next_process_base_def Let_def r w)
qed

lemma base_stall:
  assumes "runnable s = []" and "waiting s = p # ps"
  shows "get_next_process_base pol s =
           s\<lparr>waiting := ps, time := time s + arrival_time p, runnable := [p\<lparr>arrival_time := 0\<rparr>]\<rparr>"
  using assms by (simp add: get_next_process_base_def Let_def add_runnable_Nil)

lemma base_runnable: "runnable s = c # rest \<Longrightarrow> get_next_process_base pol s = s"
  by (simp add: get_next_process_base_def)

lemma base_idem:
  "get_next_process_base pol (get_next_process_base pol s) = get_next_process_base pol s"
  by (cases pol s rule: base_cases) (simp_all add: add_runnable_Nil base_runnable)



lemma is_done_sched_base: "is_done_sched (get_next_process_base pol s) = is_done_sched s"
  by (cases pol s rule: base_cases) (simp_all add: is_done_sched_def add_runnable_Nil)

lemma select_Inr:
  "select pol s = Inr s1 \<Longrightarrow>
     \<exists>c rest. runnable (get_next_process_base pol s) = c # rest
       \<and> s1 = (get_next_process_base pol s)\<lparr>runnable := rest, curr_process := Some c\<rparr>"
  by (auto simp add: select_def get_next_process_def Let_def split: sum.splits list.splits)

lemma select_base:
  "runnable (get_next_process_base pol s) = c # rest \<Longrightarrow>
     get_next_process pol s = Inr (c, (get_next_process_base pol s)\<lparr>runnable := rest\<rparr>)"
  by (simp add: get_next_process_def Let_def)

lemma run_current_Inr:
  "run_current pol s = Inr s2 \<Longrightarrow> curr_process s = Some c \<Longrightarrow>
     0 < quantum pol s c
     \<and> (asserts_no_leftover pol \<longrightarrow> quantum pol s c \<le> time_left c)
     \<and> s2 = s\<lparr>curr_process := Some (ran_proc (min (time_left c) (quantum pol s c)) c),
              step_time_ran := min (time_left c) (quantum pol s c)\<rparr>"
  by (auto simp add: run_current_def split: sum.splits if_splits dest!: run_Inr)

lemma run_current_ok:
  assumes "curr_process s = Some c" and "0 < quantum pol s c"
    and "asserts_no_leftover pol \<longrightarrow> quantum pol s c \<le> time_left c"
  shows "run_current pol s =
     Inr (s\<lparr>curr_process := Some (ran_proc (min (time_left c) (quantum pol s c)) c),
            step_time_ran := min (time_left c) (quantum pol s c)\<rparr>)"
  using assms by (auto simp add: run_current_def run_def Let_def ran_proc_def)


lemma accrue_wait_Inr:
  "accrue_wait s = Inr s' \<Longrightarrow>
     s' = s\<lparr>runnable := map (waited (step_time_ran s)) (runnable s)\<rparr>
     \<and> (runnable s = [] \<or> 0 \<le> step_time_ran s)"
  by (auto simp add: accrue_wait_def split: sum.splits dest!: wait_all_Inr)

lemma accrue_wait_ok:
  "0 \<le> step_time_ran s \<Longrightarrow>
     accrue_wait s = Inr (s\<lparr>runnable := map (waited (step_time_ran s)) (runnable s)\<rparr>)"
  by (simp add: accrue_wait_def wait_all_ok)

lemma arrivals_Inr:
  assumes "arrivals pol s = Inr s'"
  shows "s' = s\<lparr>runnable := foldl (\<lambda>r p. add_runnable pol p r) (runnable s) (arrived_list (step_time_ran s) (waiting s)),
                 waiting := still_waiting (step_time_ran s) (waiting s)\<rparr>
         \<and> (waiting s = [] \<or> 0 \<le> step_time_ran s)"
proof -
  from assms obtain rs where rs: "wait_arrival_all (step_time_ran s) (waiting s) = Inr rs"
    by (auto simp add: arrivals_def split: sum.splits)
  note r = wait_arrival_all_Inr [OF rs]
  have f: "map fst (filter snd rs) = arrived_list (step_time_ran s) (waiting s)"
    using r by (simp add: arrived_list_def filter_map o_def)
  have m: "map fst rs = map (arrived_proc (step_time_ran s)) (waiting s)"
    using r by (simp add: o_def)
  have l: "length (filter snd rs) = length (filter (\<lambda>p. arrival_time p \<le> step_time_ran s) (waiting s))"
    using arg_cong [OF f, of length] by (simp add: arrived_list_def)
  have e: "s' = s\<lparr>runnable := foldl (\<lambda>r p. add_runnable pol p r) (runnable s) (map fst (filter snd rs)),
                 waiting := drop (length (filter snd rs)) (map fst rs)\<rparr>"
    using assms by (simp add: arrivals_def Let_def rs)
  show ?thesis unfolding e f m l still_waiting_def using r by simp
qed

lemma arrivals_ok:
  assumes "0 \<le> step_time_ran s"
  shows "arrivals pol s =
     Inr (s\<lparr>runnable := foldl (\<lambda>r p. add_runnable pol p r) (runnable s)
                          (arrived_list (step_time_ran s) (waiting s)),
            waiting := still_waiting (step_time_ran s) (waiting s)\<rparr>)"
proof -
  obtain s' where "arrivals pol s = Inr s'"
    by (auto simp add: arrivals_def wait_arrival_all_ok [OF assms] Let_def)
  with arrivals_Inr [OF this] show ?thesis by simp
qed


lemma scheduler_eqI:
  "done_processes a = done_processes b \<Longrightarrow> runnable a = runnable b \<Longrightarrow> waiting a = waiting b
   \<Longrightarrow> time a = time b \<Longrightarrow> curr_process a = curr_process b \<Longrightarrow> step_time_ran a = step_time_ran b
   \<Longrightarrow> (a::scheduler) = b"
  by simp

section \<open>One step in closed form\<close>

text \<open>
  The steps written out: the statements of \<open>FIFOScheduler.step\<close> (and of
  \<open>SJFScheduler.step\<close>, the same but for \<open>add_runnable\<close>) and of
  \<open>RoundRobinScheduler.step\<close> (and of \<open>SRTFScheduler.step\<close>, the same but for the quantum
  and \<open>add_runnable\<close>), in their order.
\<close>

lemma step_FIFO_SJF:
  assumes "pol = FIFO \<or> pol = SJF"
  shows "step pol s =
     (case select pol s of Inl e \<Rightarrow> Inl e | Inr s1 \<Rightarrow>
      case run_current pol s1 of Inl e \<Rightarrow> Inl e | Inr s2 \<Rightarrow>
      case on_process_done s2 of Inl e \<Rightarrow> Inl e | Inr s3 \<Rightarrow>
      case accrue_wait (advance_clock s3) of Inl e \<Rightarrow> Inl e | Inr s4 \<Rightarrow>
      arrivals pol s4)"
  using assms by (auto simp add: step_def split: sum.splits)

lemma step_RR_SRTF:
  assumes "pol = RoundRobin ts \<or> pol = SRTF"
  shows "step pol s =
     (case select pol s of Inl e \<Rightarrow> Inl e | Inr s1 \<Rightarrow>
      case run_current pol s1 of Inl e \<Rightarrow> Inl e | Inr s2 \<Rightarrow>
      case accrue_wait s2 of Inl e \<Rightarrow> Inl e | Inr s3 \<Rightarrow>
      case arrivals pol s3 of Inl e \<Rightarrow> Inl e | Inr s4 \<Rightarrow>
      case requeue pol s4 of Inl e \<Rightarrow> Inl e | Inr s5 \<Rightarrow>
      Inr (advance_clock s5))"
  using assms by (auto simp add: step_def split: sum.splits)

lemma step_Inr_fifo:
  assumes "step pol s = Inr s'" and "asserts_no_leftover pol"
  shows "\<exists>c rest. runnable (get_next_process_base pol s) = c # rest
           \<and> 0 < quantum pol (get_next_process_base pol s) c
           \<and> quantum pol (get_next_process_base pol s) c \<le> time_left c
           \<and> s' = after_step pol (get_next_process_base pol s) c rest"
proof -
  have ph: "phases pol = [Select, RunCurrent, ProcessDone, AdvanceClock, AccrueWait, Arrivals]"
    using assms(2) by (cases pol) simp_all
  from assms(1) obtain s1 s2 s3 s5 where
    1: "select pol s = Inr s1" and 2: "run_current pol s1 = Inr s2"
    and 3: "on_process_done s2 = Inr s3" and 5: "accrue_wait (advance_clock s3) = Inr s5"
    and 6: "arrivals pol s5 = Inr s'"
    by (auto simp add: step_def ph split: sum.splits)
  from select_Inr [OF 1] obtain c rest where
    r: "runnable (get_next_process_base pol s) = c # rest"
    and s1: "s1 = (get_next_process_base pol s)\<lparr>runnable := rest, curr_process := Some c\<rparr>"
    by blast
  have c1: "curr_process s1 = Some c" by (simp add: s1)
  note R = run_current_Inr [OF 2 c1]
  note A = accrue_wait_Inr [OF 5]
  note V = arrivals_Inr [OF 6]
  have s3: "s3 = s2\<lparr>done_processes := done_processes s2 @ [ran_proc (min (time_left c) (quantum pol s1 c)) c]\<rparr>"
    using 3 R by (auto simp add: on_process_done_def)
  have "s' = after_step pol (get_next_process_base pol s) c rest"
    using V A s3 R s1 assms(2)
    by (intro scheduler_eqI) (simp_all add: after_step_def Let_def advance_clock_def)
  with r R s1 assms(2) show ?thesis by auto
qed

lemma step_Inr_rr:
  assumes "step pol s = Inr s'" and "\<not> asserts_no_leftover pol"
  shows "\<exists>c rest. runnable (get_next_process_base pol s) = c # rest
           \<and> 0 < quantum pol (get_next_process_base pol s) c
           \<and> s' = after_step pol (get_next_process_base pol s) c rest"
proof -
  have ph: "phases pol = [Select, RunCurrent, AccrueWait, Arrivals, Requeue, AdvanceClock]"
    using assms(2) by (cases pol) simp_all
  from assms(1) obtain s1 s2 s3 s4 s5 where
    1: "select pol s = Inr s1" and 2: "run_current pol s1 = Inr s2"
    and 3: "accrue_wait s2 = Inr s3" and 4: "arrivals pol s3 = Inr s4"
    and 5: "requeue pol s4 = Inr s5" and 6: "s' = advance_clock s5"
    by (auto simp add: step_def ph split: sum.splits)
  from select_Inr [OF 1] obtain c rest where
    r: "runnable (get_next_process_base pol s) = c # rest"
    and s1: "s1 = (get_next_process_base pol s)\<lparr>runnable := rest, curr_process := Some c\<rparr>"
    by blast
  have c1: "curr_process s1 = Some c" by (simp add: s1)
  note R = run_current_Inr [OF 2 c1]
  note A = accrue_wait_Inr [OF 3]
  note V = arrivals_Inr [OF 4]
  have c4: "curr_process s4 = Some (ran_proc (min (time_left c) (quantum pol s1 c)) c)"
    using V A R by simp
  have s5: "s5 = (if is_done (ran_proc (min (time_left c) (quantum pol s1 c)) c)
                  then s4\<lparr>done_processes := done_processes s4 @ [ran_proc (min (time_left c) (quantum pol s1 c)) c]\<rparr>
                  else s4\<lparr>runnable := add_runnable pol (ran_proc (min (time_left c) (quantum pol s1 c)) c) (runnable s4)\<rparr>)"
    using 5 c4 by (auto simp add: requeue_def on_process_done_def)
  have "s' = after_step pol (get_next_process_base pol s) c rest"
    unfolding 6 s5 using V A R s1 assms(2)
    by (intro scheduler_eqI) (simp_all add: after_step_def Let_def advance_clock_def)
  with r R s1 show ?thesis by auto
qed

lemma step_Inr:
  assumes "step pol s = Inr s'"
  shows "\<exists>c rest. runnable (get_next_process_base pol s) = c # rest
           \<and> 0 < quantum pol (get_next_process_base pol s) c
           \<and> (asserts_no_leftover pol \<longrightarrow> quantum pol (get_next_process_base pol s) c \<le> time_left c)
           \<and> s' = after_step pol (get_next_process_base pol s) c rest"
  using step_Inr_fifo [OF assms] step_Inr_rr [OF assms]
  by (cases "asserts_no_leftover pol") auto

text \<open>When a step succeeds: the converse of the closed form.\<close>

lemma step_ok:
  assumes rn: "runnable (get_next_process_base pol s) = c # rest"
    and q: "0 < quantum pol (get_next_process_base pol s) c"
    and le: "asserts_no_leftover pol \<longrightarrow> quantum pol (get_next_process_base pol s) c \<le> time_left c"
    and d: "0 \<le> min (time_left c) (quantum pol (get_next_process_base pol s) c)"
  shows "step pol s = Inr (after_step pol (get_next_process_base pol s) c rest)"
proof -
  define s0 where "s0 = get_next_process_base pol s"
  define d where "d = min (time_left c) (quantum pol s0 c)"
  define s1 where "s1 = s0\<lparr>runnable := rest, curr_process := Some c\<rparr>"
  define s2 where "s2 = s1\<lparr>curr_process := Some (ran_proc d c), step_time_ran := d\<rparr>"
  have 1: "select pol s = Inr s1"
    using select_base [OF rn] by (simp add: select_def s1_def s0_def)
  have 2: "run_current pol s1 = Inr s2"
    using run_current_ok [of s1 c pol] q le by (simp add: s1_def s2_def d_def s0_def)
  have d0: "0 \<le> d" using assms(4) by (simp add: d_def s0_def)
  have str: "step_time_ran s2 = d" by (simp add: s2_def)
  show ?thesis
  proof (cases "asserts_no_leftover pol")
    case True
    then have ph: "phases pol = [Select, RunCurrent, ProcessDone, AdvanceClock, AccrueWait, Arrivals]"
      by (cases pol) simp_all
    define s3 where "s3 = s2\<lparr>done_processes := done_processes s2 @ [ran_proc d c]\<rparr>"
    define s4 where "s4 = (advance_clock s3)\<lparr>runnable := map (waited d) (runnable s3)\<rparr>"
    have 3: "on_process_done s2 = Inr s3" by (simp add: on_process_done_def s2_def s3_def)
    have 4: "accrue_wait (advance_clock s3) = Inr s4"
      using accrue_wait_ok [of "advance_clock s3"] d0
      by (simp add: s4_def s3_def s2_def advance_clock_def)
    have 5: "arrivals pol s4 = Inr (after_step pol s0 c rest)"
      using arrivals_ok [of s4 pol] d0 True
      by (simp add: s4_def s3_def s2_def s1_def advance_clock_def after_step_def Let_def
          d_def [symmetric])
    show ?thesis
      unfolding step_def ph s0_def [symmetric] by (simp add: 1 2 3 4 5)
  next
    case False
    then have ph: "phases pol = [Select, RunCurrent, AccrueWait, Arrivals, Requeue, AdvanceClock]"
      by (cases pol) simp_all
    define s3 where "s3 = s2\<lparr>runnable := map (waited d) (runnable s2)\<rparr>"
    define s4 where "s4 = s3\<lparr>runnable := foldl (\<lambda>r p. add_runnable pol p r) (runnable s3)
                          (arrived_list d (waiting s3)),
            waiting := still_waiting d (waiting s3)\<rparr>"
    define s5 where "s5 = (if is_done (ran_proc d c)
        then s4\<lparr>done_processes := done_processes s4 @ [ran_proc d c]\<rparr>
        else s4\<lparr>runnable := add_runnable pol (ran_proc d c) (runnable s4)\<rparr>)"
    have 3: "accrue_wait s2 = Inr s3"
      using accrue_wait_ok [of s2] d0 by (simp add: s3_def str)
    have 4: "arrivals pol s3 = Inr s4"
      using arrivals_ok [of s3 pol] d0 by (simp add: s4_def s3_def str)
    have 5: "requeue pol s4 = Inr s5"
      by (simp add: requeue_def on_process_done_def s5_def s4_def s3_def s2_def)
    have 6: "advance_clock s5 = after_step pol s0 c rest"
      using False
      by (simp add: s5_def s4_def s3_def s2_def s1_def advance_clock_def after_step_def Let_def
          d_def [symmetric])
    show ?thesis
      unfolding step_def ph s0_def [symmetric] by (simp add: 1 2 3 4 5 6)
  qed
qed

lemma step_base: "step pol (get_next_process_base pol s) = step pol s"
proof -
  have "select pol (get_next_process_base pol s) = select pol s"
    by (simp add: select_def get_next_process_def base_idem)
  then show ?thesis by (cases pol) (simp_all add: step_def)
qed



section \<open>The run loop terminates\<close>

lemma step_decreases:
  assumes "step pol s = Inr s'"
  shows "length (waiting s') < length (waiting s)
         \<or> length (waiting s') = length (waiting s) \<and> work (runnable s') < work (runnable s)"
proof -
  define s0 where "s0 = get_next_process_base pol s"
  from step_Inr [OF assms] obtain c rest where
    r: "runnable s0 = c # rest" and q: "0 < quantum pol s0 c"
    and s': "s' = after_step pol s0 c rest"
    unfolding s0_def by blast
  define d where "d = min (time_left c) (quantum pol s0 c)"
  define k where "k = length (filter (\<lambda>p. arrival_time p \<le> d) (waiting s0))"
  have w': "length (waiting s') = length (waiting s0) - k"
    by (simp add: s' after_step_def Let_def length_still_waiting d_def k_def)
  show ?thesis
  proof (cases "length (runnable s) = 0 \<and> length (waiting s) > 0")
    case True
    then have "length (waiting s0) < length (waiting s)"
      by (simp add: s0_def get_next_process_base_def Let_def)
    with w' show ?thesis by linarith
  next
    case False
    then have s0: "s0 = s" unfolding s0_def get_next_process_base_def by (simp only: if_False)
    show ?thesis
    proof (cases "k = 0")
      case False
      have "k \<le> length (waiting s0)" by (simp add: k_def)
      with False w' s0 show ?thesis by auto
    next
      case True
      then have a: "arrived_list d (waiting s0) = []"
        by (simp add: arrived_list_def k_def)
      have tl: "\<not> is_done (ran_proc d c) \<Longrightarrow> nat (time_left (ran_proc d c)) < nat (time_left c)"
        using q by (auto simp add: is_done_def ran_proc_def time_left_def d_def min_def split: if_splits)
      have "work (runnable s') < work (runnable s0)"
        using tl
        by (simp add: s' after_step_def Let_def d_def [symmetric] a r work_add_runnable work_waited)
      with True w' s0 show ?thesis by simp
    qed
  qed
qed

termination run_loop
proof (relation "measures [\<lambda>(pol, s). length (waiting s), \<lambda>(pol, s). work (runnable s)]")
  show "wf (measures [\<lambda>(pol, s). length (waiting s), \<lambda>(pol, s). work (runnable s)])"
    by simp
next
  fix pol s s'
  assume "step pol s = Inr s'"
  from step_decreases [OF this]
  show "((pol, s'), (pol, s)) \<in> measures [\<lambda>(pol, s). length (waiting s), \<lambda>(pol, s). work (runnable s)]"
    by auto
qed

declare run_loop.simps [simp del]


lemma run_loop_base: "run_loop pol (get_next_process_base pol s) = run_loop pol s"
proof (cases "is_done_sched s")
  case True
  then have "get_next_process_base pol s = s"
    by (simp add: is_done_sched_def get_next_process_base_def)
  then show ?thesis by simp
next
  case False
  then show ?thesis
    by (simp add: run_loop.simps [of pol s] run_loop.simps [of pol "get_next_process_base pol s"]
        is_done_sched_base step_base)
qed

lemma steps_induct_inv:
  assumes "steps pol s s'" and "I s" and "\<And>a b. I a \<Longrightarrow> step pol a = Inr b \<Longrightarrow> I b"
  shows "I s'"
  using assms by (induction rule: steps.induct) auto

lemma steps_trans: "steps pol a b \<Longrightarrow> steps pol b c \<Longrightarrow> steps pol a c"
  by (induction rule: steps.induct) (auto intro: steps.intros elim: steps_induct_inv)

lemma steps_first: "step pol s = Inr s1 \<Longrightarrow> steps pol s1 s' \<Longrightarrow> steps pol s s'"
  using steps_trans [of pol s s1 s'] by (auto intro: steps.intros)

lemma run_loop_Inr: "run_loop pol s = Inr s' \<Longrightarrow> steps pol s s' \<and> is_done_sched s'"
proof (induction pol s rule: run_loop.induct)
  case (1 pol s)
  show ?case
  proof (cases "is_done_sched s")
    case True
    with "1.prems" show ?thesis by (auto simp add: run_loop.simps intro: steps.intros)
  next
    case False
    with "1.prems" obtain s1 where s1: "step pol s = Inr s1" and r: "run_loop pol s1 = Inr s'"
      by (auto simp add: run_loop.simps [of pol s] split: sum.splits)
    from "1.IH" [OF False s1 r] s1 show ?thesis by (auto intro: steps_first)
  qed
qed


section \<open>What every step keeps\<close>

text \<open>A property of the processes in the two queues that every step keeps.\<close>

lemma step_queues:
  assumes st: "step pol s = Inr s'"
    and P: "\<forall>p \<in> set (runnable s) \<union> set (waiting s). P p"
    and w: "\<And>d p. P p \<Longrightarrow> P (waited d p)"
    and a: "\<And>d p. P p \<Longrightarrow> P (arrived_proc d p)"
    and z: "\<And>p. P p \<Longrightarrow> P (p\<lparr>arrival_time := 0\<rparr>)"
    and r: "\<And>d p. P p \<Longrightarrow> \<not> asserts_no_leftover pol \<Longrightarrow> \<not> is_done (ran_proc d p)
              \<Longrightarrow> P (ran_proc d p)"
  shows "\<forall>p \<in> set (runnable s') \<union> set (waiting s'). P p"
proof -
  define s0 where "s0 = get_next_process_base pol s"
  have P0: "\<forall>p \<in> set (runnable s0) \<union> set (waiting s0). P p"
  proof (cases pol s rule: base_cases)
    case same
    then show ?thesis using P by (simp add: s0_def)
  next
    case (stall p ps)
    then show ?thesis using P z [of p] by (auto simp add: s0_def set_add_runnable)
  qed
  from step_Inr [OF st] obtain c rest where
    rn: "runnable s0 = c # rest" and s': "s' = after_step pol s0 c rest"
    unfolding s0_def by blast
  define d where "d = min (time_left c) (quantum pol s0 c)"
  have Pc: "P c" and Prest: "\<forall>p \<in> set rest. P p" and Pw: "\<forall>p \<in> set (waiting s0). P p"
    using P0 rn by auto
  have 1: "\<forall>p \<in> set (map (waited d) rest). P p" using Prest w by auto
  have 2: "\<forall>p \<in> set (arrived_list d (waiting s0)). P p"
    using Pw a set_arrived_list [of d "waiting s0"] by auto
  have 3: "\<forall>p \<in> set (still_waiting d (waiting s0)). P p"
    using Pw a set_still_waiting [of d "waiting s0"] by auto
  have 4: "\<not> asserts_no_leftover pol \<Longrightarrow> \<not> is_done (ran_proc d c) \<Longrightarrow> P (ran_proc d c)"
    using r [OF Pc] .
  have rs: "set (runnable s') \<subseteq> set (map (waited d) rest) \<union> set (arrived_list d (waiting s0))
      \<union> (if \<not> asserts_no_leftover pol \<and> \<not> is_done (ran_proc d c) then {ran_proc d c} else {})"
    by (auto simp add: s' after_step_def Let_def d_def [symmetric] set_add_runnable
        set_foldl_add_runnable)
  have ws: "waiting s' = still_waiting d (waiting s0)"
    by (simp add: s' after_step_def Let_def d_def)
  show ?thesis
  proof
    fix p assume "p \<in> set (runnable s') \<union> set (waiting s')"
    then consider "p \<in> set (map (waited d) rest)" | "p \<in> set (arrived_list d (waiting s0))"
      | "p = ran_proc d c" "\<not> asserts_no_leftover pol" "\<not> is_done (ran_proc d c)"
      | "p \<in> set (still_waiting d (waiting s0))"
      using rs ws by (auto split: if_splits)
    then show "P p" using 1 2 3 4 by cases auto
  qed
qed

text \<open>What a step adds to the done list.\<close>

lemma step_done:
  assumes st: "step pol s = Inr s'"
    and P: "\<forall>p \<in> set (runnable s) \<union> set (waiting s). P p"
    and z: "\<And>p. P p \<Longrightarrow> P (p\<lparr>arrival_time := 0\<rparr>)"
  shows "done_processes s' = done_processes s
         \<or> (\<exists>c q. P c \<and> 0 < q
               \<and> (if asserts_no_leftover pol then q = ex_time c \<and> q \<le> time_left c
                   else is_done (ran_proc (min (time_left c) q) c))
               \<and> done_processes s' = done_processes s @ [ran_proc (min (time_left c) q) c])"
proof -
  define s0 where "s0 = get_next_process_base pol s"
  have P0: "\<forall>p \<in> set (runnable s0). P p" and d0: "done_processes s0 = done_processes s"
  proof (atomize (full), cases pol s rule: base_cases)
    case same
    then show "(\<forall>p \<in> set (runnable s0). P p) \<and> done_processes s0 = done_processes s"
      using P by (simp add: s0_def)
  next
    case (stall p ps)
    then show "(\<forall>p \<in> set (runnable s0). P p) \<and> done_processes s0 = done_processes s"
      using P z [of p] by (auto simp add: s0_def set_add_runnable)
  qed
  from step_Inr [OF st] obtain c rest where
    rn: "runnable s0 = c # rest" and q: "0 < quantum pol s0 c"
    and le: "asserts_no_leftover pol \<longrightarrow> quantum pol s0 c \<le> time_left c"
    and s': "s' = after_step pol s0 c rest"
    unfolding s0_def by blast
  have Pc: "P c" using P0 rn by simp
  show ?thesis
  proof (cases "\<not> asserts_no_leftover pol \<and> \<not> is_done (ran_proc (min (time_left c) (quantum pol s0 c)) c)")
    case True
    then show ?thesis by (simp add: s' after_step_def Let_def d0)
  next
    case False
    then have "done_processes s' = done_processes s @ [ran_proc (min (time_left c) (quantum pol s0 c)) c]"
      by (auto simp add: s' after_step_def Let_def d0)
    moreover have "if asserts_no_leftover pol then quantum pol s0 c = ex_time c \<and> quantum pol s0 c \<le> time_left c
                   else is_done (ran_proc (min (time_left c) (quantum pol s0 c)) c)"
      using False le quantum_asserts [of pol s0 c] by auto
    ultimately show ?thesis using Pc q by blast
  qed
qed

lemma step_done_prefix: "step pol s = Inr s' \<Longrightarrow> prefix (done_processes s) (done_processes s')"
  using step_done [of pol s s' "\<lambda>p. True"] by auto

lemma steps_done_prefix: "steps pol s s' \<Longrightarrow> prefix (done_processes s) (done_processes s')"
  by (induction rule: steps.induct) (auto dest: step_done_prefix)


lemma init_Inr:
  assumes "init pol procs = Inr s0"
  shows "set (runnable s0) \<union> set (waiting s0) = set procs" and "done_processes s0 = []"
    and "waiting s0 = sort_procs (filter (\<lambda>p. \<not> arrival_time p \<le> 0) procs)"
  using assms
  by (cases pol; auto simp add: Scheduler_init_def sort_procs_def Let_def split: if_splits)+



lemma reachable_induct_inv:
  assumes "reachable pol procs s"
    and "\<And>s0. init pol procs = Inr s0 \<Longrightarrow> I s0"
    and "\<And>a b. I a \<Longrightarrow> step pol a = Inr b \<Longrightarrow> I b"
  shows "I s"
proof -
  from assms(1) obtain s0 where "init pol procs = Inr s0" and "steps pol s0 s"
    by (auto simp add: reachable_def)
  then show ?thesis using assms(2,3) steps_induct_inv [of pol s0 s I] by blast
qed

lemma reachable_step: "reachable pol procs s \<Longrightarrow> step pol s = Inr s' \<Longrightarrow> reachable pol procs s'"
  by (auto simp add: reachable_def intro: steps.intros)

lemma queued_ok_step:
  assumes "step pol s = Inr s'" and "\<forall>p \<in> set (runnable s) \<union> set (waiting s). queued_ok pol p"
  shows "\<forall>p \<in> set (runnable s') \<union> set (waiting s'). queued_ok pol p"
  using assms
  by (rule step_queues)
     (simp_all add: queued_ok_def waited_def arrived_proc_def ran_proc_def)

lemma done_ok_step:
  assumes st: "step pol s = Inr s'"
    and q: "\<forall>p \<in> set (runnable s) \<union> set (waiting s). queued_ok pol p"
    and d: "\<forall>p \<in> set (done_processes s). done_ok p"
  shows "\<forall>p \<in> set (done_processes s'). done_ok p"
proof -
  from step_done [of pol s s' "queued_ok pol", OF st q]
  consider "done_processes s' = done_processes s"
    | c q where "queued_ok pol c" "0 < q"
        "if asserts_no_leftover pol then q = ex_time c \<and> q \<le> time_left c
         else is_done (ran_proc (min (time_left c) q) c)"
        "done_processes s' = done_processes s @ [ran_proc (min (time_left c) q) c]"
    by (auto simp add: queued_ok_def)
  then show ?thesis
  proof cases
    case 1
    then show ?thesis using d by simp
  next
    case 2
    have "done_ok (ran_proc (min (time_left c) q) c)"
      using 2(1,2,3)
      by (auto simp add: done_ok_def queued_ok_def ran_proc_def is_done_def time_left_def min_def
          split: if_splits)
    with 2(4) d show ?thesis by auto
  qed
qed

lemma reachable_ok:
  assumes "list_all fresh procs" and "reachable pol procs s"
  shows "(\<forall>p \<in> set (runnable s) \<union> set (waiting s). queued_ok pol p)
         \<and> (\<forall>p \<in> set (done_processes s). done_ok p)"
  using assms(2)
proof (rule reachable_induct_inv)
  fix s0 assume "init pol procs = Inr s0"
  from init_Inr(1,2) [OF this] assms(1)
  show "(\<forall>p \<in> set (runnable s0) \<union> set (waiting s0). queued_ok pol p)
         \<and> (\<forall>p \<in> set (done_processes s0). done_ok p)"
    by (auto simp add: list_all_iff fresh_def queued_ok_def)
next
  fix a b
  assume "(\<forall>p \<in> set (runnable a) \<union> set (waiting a). queued_ok pol p)
         \<and> (\<forall>p \<in> set (done_processes a). done_ok p)" and "step pol a = Inr b"
  then show "(\<forall>p \<in> set (runnable b) \<union> set (waiting b). queued_ok pol p)
         \<and> (\<forall>p \<in> set (done_processes b). done_ok p)"
    using queued_ok_step [of pol a b] done_ok_step [of pol a b] by blast
qed

lemma reachable_not_done:
  assumes "list_all fresh procs" and "list_all (\<lambda>p. 0 < ex_time p) procs"
    and "reachable pol procs s"
  shows "\<forall>p \<in> set (runnable s) \<union> set (waiting s). \<not> is_done p"
  using assms(3)
proof (rule reachable_induct_inv)
  fix s0 assume "init pol procs = Inr s0"
  from init_Inr(1) [OF this] assms(1,2)
  show "\<forall>p \<in> set (runnable s0) \<union> set (waiting s0). \<not> is_done p"
    by (auto simp add: list_all_iff fresh_def is_done_def)
next
  fix a b
  assume "\<forall>p \<in> set (runnable a) \<union> set (waiting a). \<not> is_done p" and "step pol a = Inr b"
  then show "\<forall>p \<in> set (runnable b) \<union> set (waiting b). \<not> is_done p"
    using step_queues [of pol a b "\<lambda>p. \<not> is_done p"]
    by (simp add: is_done_def waited_def arrived_proc_def)
qed

lemma waiting_ok_step:
  assumes "step pol s = Inr s'" and "waiting_ok (waiting s)"
  shows "waiting_ok (waiting s')"
proof -
  have "waiting_ok (waiting (get_next_process_base pol s))"
    using assms(2) by (cases pol s rule: base_cases) (auto dest: waiting_ok_tl)
  moreover from step_Inr [OF assms(1)] obtain c rest where
    "s' = after_step pol (get_next_process_base pol s) c rest" by blast
  ultimately show ?thesis by (simp add: after_step_def Let_def waiting_ok_still)
qed

lemma waiting_ok_init: "init pol procs = Inr s0 \<Longrightarrow> waiting_ok (waiting s0)"
  by (simp add: init_Inr(3) waiting_ok_def sort_procs_def list_all_iff)

lemma reachable_waiting_ok: "reachable pol procs s \<Longrightarrow> waiting_ok (waiting s)"
  by (rule reachable_induct_inv [where I = "\<lambda>s. waiting_ok (waiting s)"])
     (auto intro: waiting_ok_init waiting_ok_step)

text \<open>SJF and SRTF keep the runnable list in the order of \<open>__lt__\<close>.\<close>

lemma sorted_runnable_step:
  assumes pol: "pol = SJF \<or> pol = SRTF" and st: "step pol s = Inr s'"
    and srt: "sorted (map proc_key (runnable s))"
  shows "sorted (map proc_key (runnable s'))"
proof -
  define s0 where "s0 = get_next_process_base pol s"
  have s0: "sorted (map proc_key (runnable s0))"
    using srt by (cases pol s rule: base_cases) (simp_all add: s0_def add_runnable_Nil)
  from step_Inr [OF st] obtain c rest where
    rn: "runnable s0 = c # rest" and s': "s' = after_step pol s0 c rest"
    unfolding s0_def by blast
  have "sorted (map proc_key (map (waited d) rest))" for d
    using s0 rn by (simp add: o_def)
  from sorted_foldl_add_runnable [OF pol this]
  show ?thesis
    using pol by (auto simp add: s' after_step_def Let_def sorted_insort)
qed


section \<open>A scheduler of well-formed processes runs to the end\<close>






text \<open>A scheduler with one process left runs it to its end and stops.\<close>

lemma lone_run:
  assumes ts: "\<And>ts. pol = RoundRobin ts \<Longrightarrow> 0 < ts"
  shows "runnable s = [c] \<Longrightarrow> waiting s = [] \<Longrightarrow> 0 < time_left c
     \<Longrightarrow> (asserts_no_leftover pol \<longrightarrow> processed_time c = 0)
     \<Longrightarrow> \<exists>s'. run_loop pol s = Inr s' \<and> done_processes s' = done_processes s @ [finished c]
            \<and> time s' = time s + time_left c \<and> runnable s' = [] \<and> waiting s' = []"
proof (induction "nat (time_left c)" arbitrary: s c rule: less_induct)
  case less
  note rn = \<open>runnable s = [c]\<close> and w = \<open>waiting s = []\<close> and tl = \<open>0 < time_left c\<close>
    and p0 = \<open>asserts_no_leftover pol \<longrightarrow> processed_time c = 0\<close>
  have b: "get_next_process_base pol s = s" using rn by (rule base_runnable)
  define d where "d = min (time_left c) (quantum pol s c)"
  have q: "0 < quantum pol s c"
    using tl p0 ts w by (cases pol) (auto simp add: time_left_def)
  have le: "asserts_no_leftover pol \<longrightarrow> quantum pol s c \<le> time_left c"
    using p0 by (auto simp add: quantum_asserts time_left_def)
  have dpos: "0 < d" using tl q by (simp add: d_def)
  have st: "step pol s = Inr (after_step pol s c [])"
    using step_ok [of pol s c "[]"] rn q le dpos by (simp add: b d_def)
  have nd: "\<not> is_done_sched s" using rn by (simp add: is_done_sched_def)
  have rl: "run_loop pol s = run_loop pol (after_step pol s c [])"
    using nd st by (simp add: run_loop.simps [of pol s])
  show ?case
  proof (cases "\<not> asserts_no_leftover pol \<and> \<not> is_done (ran_proc d c)")
    case False
    then have dn: "is_done (ran_proc d c)"
      using p0 le by (auto simp add: is_done_def ran_proc_def d_def time_left_def quantum_asserts)
    then have f: "ran_proc d c = finished c" and dt: "d = time_left c"
      using dpos by (auto simp add: is_done_def ran_proc_def finished_def d_def time_left_def min_def
          split: if_splits)
    have "after_step pol s c [] =
        \<lparr>done_processes = done_processes s @ [ran_proc d c], runnable = [], waiting = [],
         time = time s + d, curr_process = Some (ran_proc d c), step_time_ran = d\<rparr>"
      using False dn
      by (simp add: after_step_def Let_def d_def [symmetric] w arrived_list_def still_waiting_def)
    then have a: "after_step pol s c [] =
        \<lparr>done_processes = done_processes s @ [finished c], runnable = [], waiting = [],
         time = time s + time_left c, curr_process = Some (finished c), step_time_ran = d\<rparr>"
      by (simp add: f dt [symmetric])
    have "is_done_sched (after_step pol s c [])" by (simp add: a is_done_sched_def)
    then have "run_loop pol (after_step pol s c []) = Inr (after_step pol s c [])"
      by (simp add: run_loop.simps)
    with rl show ?thesis by (simp add: a)
  next
    case True
    define c' where "c' = ran_proc d c"
    define s1 where "s1 = after_step pol s c []"
    have r1: "runnable s1 = [c']" and w1: "waiting s1 = []"
      and d1: "done_processes s1 = done_processes s" and t1: "time s1 = time s + d"
      using True
      by (simp_all add: s1_def after_step_def Let_def d_def [symmetric] w arrived_list_def
          still_waiting_def add_runnable_Nil c'_def)
    have tl1: "0 < time_left c'" using True by (simp add: c'_def is_done_def time_left_def)
    have tl2: "time_left c' = time_left c - d" by (simp add: c'_def ran_proc_def time_left_def)
    have lt: "nat (time_left c') < nat (time_left c)" using tl1 tl2 dpos by simp
    have p1: "asserts_no_leftover pol \<longrightarrow> processed_time c' = 0" using True by simp
    from less.hyps [OF lt r1 w1 tl1 p1] obtain s' where
      s': "run_loop pol s1 = Inr s'" "done_processes s' = done_processes s1 @ [finished c']"
        "time s' = time s1 + time_left c'" "runnable s' = []" "waiting s' = []"
      by blast
    have "finished c' = finished c"
      by (simp add: finished_def c'_def ran_proc_def time_left_def)
    with s' rl show ?thesis by (simp add: s1_def [symmetric] d1 t1 tl2)
  qed
qed

lemma lone_process:
  assumes ex: "0 < e" and a: "0 < a" and i: "init pol [Process i e a] = Inr s0"
  shows "\<exists>s' st. Scheduler_run pol s0 = Inr (s', st)
           \<and> done_processes s' = [(Process i e 0)\<lparr>processed_time := e, comp_time := e\<rparr>]
           \<and> time s' = a + e \<and> avg_wait_time st = 0 \<and> avg_comp_time st = of_int e"
proof -
  have s0: "runnable s0 = []" "waiting s0 = [Process i e a]" "time s0 = 0" "done_processes s0 = []"
    using i a
    by (cases pol; auto simp add: Scheduler_init_def sort_procs_def Process_def Let_def
        split: if_splits)+
  define b where "b = get_next_process_base pol s0"
  have b: "runnable b = [Process i e 0]" "waiting b = []" "time b = a" "done_processes b = []"
    using base_stall [OF s0(1,2), of pol] by (simp_all add: b_def s0 Process_def)
  have ts: "0 < ts" if "pol = RoundRobin ts" for ts
    using i that by (auto split: if_splits)
  have "0 < time_left (Process i e 0)" using ex by (simp add: time_left_def Process_def)
  moreover have "asserts_no_leftover pol \<longrightarrow> processed_time (Process i e 0) = 0"
    by (simp add: Process_def)
  ultimately obtain s' where s': "run_loop pol b = Inr s'"
    "done_processes s' = done_processes b @ [finished (Process i e 0)]"
    "time s' = time b + time_left (Process i e 0)"
    using lone_run [of pol b "Process i e 0", OF ts b(1,2)] by blast
  have f: "finished (Process i e 0) = (Process i e 0)\<lparr>processed_time := e, comp_time := e\<rparr>"
    by (simp add: finished_def Process_def time_left_def)
  have r: "run_loop pol s0 = Inr s'" using s'(1) run_loop_base [of pol s0] by (simp add: b_def)
  have d: "done_processes s' = [(Process i e 0)\<lparr>processed_time := e, comp_time := e\<rparr>]"
    using s'(2) by (simp add: b f)
  have t: "time s' = a + e" using s'(3) by (simp add: b time_left_def Process_def)
  show ?thesis
    using t by (simp add: Scheduler_run_def r d completion_time_def is_done_def Process_def)
qed

section \<open>Two evaluations used below\<close>

lemma fifo_first_step:
  "step FIFO (Scheduler_init three_procs) =
     Inr \<lparr>done_processes = [ran_proc 5 (Process ''P1'' 5 0)],
          runnable = [waited 5 (Process ''P2'' 3 0), waited 5 (Process ''P3'' 8 0)],
          waiting = [], time = 5, curr_process = Some (ran_proc 5 (Process ''P1'' 5 0)),
          step_time_ran = 5\<rparr>"
  by code_simp


section \<open>Claim C1: the quantum of SRTF\<close>

text \<open>
  Claim C1 as stated fails. Process A (execution time 5) is selected while B (execution
  time 4) is waiting to arrive in 3: the arrival comes before A would finish, yet the
  quantum is the whole time left of A, 5, not 3.
\<close>

theorem srtf_clip_counterexample:
  "init SRTF [Process ''A'' 5 0, Process ''B'' 4 3]
     = Inr (Scheduler_init [Process ''A'' 5 0, Process ''B'' 4 3])
   \<and> get_next_process SRTF (Scheduler_init [Process ''A'' 5 0, Process ''B'' 4 3])
       = Inr (Process ''A'' 5 0,
              (Scheduler_init [Process ''A'' 5 0, Process ''B'' 4 3])\<lparr>runnable := []\<rparr>)
   \<and> waiting (Scheduler_init [Process ''A'' 5 0, Process ''B'' 4 3]) = [Process ''B'' 4 3]
   \<and> arrival_time (Process ''B'' 4 3) < time_left (Process ''A'' 5 0)
   \<and> quantum SRTF (Scheduler_init [Process ''A'' 5 0, Process ''B'' 4 3]) (Process ''A'' 5 0)
       \<noteq> arrival_time (Process ''B'' 4 3)
   \<and> step SRTF (Scheduler_init [Process ''A'' 5 0, Process ''B'' 4 3])
       = Inr \<lparr>done_processes = [ran_proc 5 (Process ''A'' 5 0)],
              runnable = [waited 2 (Process ''B'' 4 0)], waiting = [], time = 5,
              curr_process = Some (ran_proc 5 (Process ''A'' 5 0)), step_time_ran = 5\<rparr>"
  by code_simp

text \<open>
  Claim C1, amended. In an SRTF step with a process \<open>w\<close> first in the waiting list, the
  running time asked for is the time left of the selected process \<open>c\<close>, replaced by the
  arrival time of \<open>w\<close> exactly when the time left of \<open>c\<close> exceeds the arrival time of \<open>w\<close>
  plus the time left of \<open>w\<close> (that is, when \<open>w\<close> would finish before \<open>c\<close>). The process
  runs for that time; if it is not done it is put back with \<open>bisect.insort\<close>, after the
  arrivals, and a runnable list in ascending order of (arrival time, execution time)
  stays in that order.
\<close>

theorem srtf_quantum:
  assumes "step SRTF s = Inr s'" and "get_next_process SRTF s = Inr (c, s1)"
    and "waiting s1 = w # ws"
  shows "quantum SRTF s1 c
           = (if time_left c > arrival_time w + time_left w then arrival_time w else time_left c)
         \<and> step_time_ran s' = min (time_left c) (quantum SRTF s1 c)
         \<and> (0 \<le> time_left w \<longrightarrow> step_time_ran s' = quantum SRTF s1 c)
         \<and> curr_process s' = Some (ran_proc (step_time_ran s') c)
         \<and> (if is_done (ran_proc (step_time_ran s') c)
             then done_processes s' = done_processes s @ [ran_proc (step_time_ran s') c]
                  \<and> runnable s' = foldl (\<lambda>r p. insort r p)
                       (map (waited (step_time_ran s')) (runnable s1))
                       (arrived_list (step_time_ran s') (waiting s1))
             else done_processes s' = done_processes s
                  \<and> runnable s' = insort
                       (foldl (\<lambda>r p. insort r p)
                          (map (waited (step_time_ran s')) (runnable s1))
                          (arrived_list (step_time_ran s') (waiting s1)))
                       (ran_proc (step_time_ran s') c))
         \<and> (sorted (map proc_key (runnable s)) \<longrightarrow> sorted (map proc_key (runnable s')))"
proof -
  define s0 where "s0 = get_next_process_base SRTF s"
  from step_Inr [OF assms(1)] obtain c' rest where
    rn: "runnable s0 = c' # rest" and s': "s' = after_step SRTF s0 c' rest"
    unfolding s0_def by blast
  from select_base [OF rn [unfolded s0_def]] assms(2)
  have c: "c' = c" and s1: "s1 = s0\<lparr>runnable := rest\<rparr>" by (simp_all add: s0_def)
  have w: "waiting s0 = w # ws" using assms(3) by (simp add: s1)
  have d0: "done_processes s0 = done_processes s"
    by (cases SRTF s rule: base_cases) (simp_all add: s0_def)
  have q: "quantum SRTF s1 c
           = (if time_left c > arrival_time w + time_left w then arrival_time w else time_left c)"
    by (simp add: s1 w Let_def)
  have q0: "quantum SRTF s0 c = quantum SRTF s1 c" by (simp add: s1)
  have d: "step_time_ran s' = min (time_left c) (quantum SRTF s1 c)"
    by (simp add: s' c after_step_def Let_def q0 del: quantum.simps)
  have e: "0 \<le> time_left w \<longrightarrow> step_time_ran s' = quantum SRTF s1 c"
    unfolding d q by auto
  have cp: "curr_process s' = Some (ran_proc (step_time_ran s') c)"
    unfolding d by (simp add: s' c after_step_def Let_def q0 del: quantum.simps)
  have f: "(\<lambda>r p. add_runnable SRTF p r) = (\<lambda>r p. insort r p)" by simp
  have rq: "if is_done (ran_proc (step_time_ran s') c)
             then done_processes s' = done_processes s @ [ran_proc (step_time_ran s') c]
                  \<and> runnable s' = foldl (\<lambda>r p. insort r p)
                       (map (waited (step_time_ran s')) (runnable s1))
                       (arrived_list (step_time_ran s') (waiting s1))
             else done_processes s' = done_processes s
                  \<and> runnable s' = insort
                       (foldl (\<lambda>r p. insort r p)
                          (map (waited (step_time_ran s')) (runnable s1))
                          (arrived_list (step_time_ran s') (waiting s1)))
                       (ran_proc (step_time_ran s') c)"
    unfolding d by (simp add: s' c after_step_def Let_def q0 d0 f del: quantum.simps) (simp add: s1)
  have so: "sorted (map proc_key (runnable s)) \<longrightarrow> sorted (map proc_key (runnable s'))"
    using sorted_runnable_step [of SRTF s s'] assms(1) by simp
  from q d e cp rq so show ?thesis by blast
qed

theorem srtf_quantum_witness:
  "step SRTF (Scheduler_init [Process ''A'' 10 0, Process ''B'' 2 3])
     = Inr \<lparr>done_processes = [],
            runnable = [Process ''B'' 2 0, ran_proc 3 (Process ''A'' 10 0)], waiting = [],
            time = 3, curr_process = Some (ran_proc 3 (Process ''A'' 10 0)), step_time_ran = 3\<rparr>
   \<and> get_next_process SRTF (Scheduler_init [Process ''A'' 10 0, Process ''B'' 2 3])
       = Inr (Process ''A'' 10 0,
              (Scheduler_init [Process ''A'' 10 0, Process ''B'' 2 3])\<lparr>runnable := []\<rparr>)
   \<and> waiting ((Scheduler_init [Process ''A'' 10 0, Process ''B'' 2 3])\<lparr>runnable := []\<rparr>)
       = [Process ''B'' 2 3]
   \<and> quantum SRTF ((Scheduler_init [Process ''A'' 10 0, Process ''B'' 2 3])\<lparr>runnable := []\<rparr>)
        (Process ''A'' 10 0) = 3
   \<and> sorted (map proc_key [Process ''B'' 2 0, ran_proc 3 (Process ''A'' 10 0)])"
proof -
  have 1: "step SRTF (Scheduler_init [Process ''A'' 10 0, Process ''B'' 2 3])
     = Inr \<lparr>done_processes = [],
            runnable = [Process ''B'' 2 0, ran_proc 3 (Process ''A'' 10 0)], waiting = [],
            time = 3, curr_process = Some (ran_proc 3 (Process ''A'' 10 0)), step_time_ran = 3\<rparr>"
    by code_simp
  have 2: "get_next_process SRTF (Scheduler_init [Process ''A'' 10 0, Process ''B'' 2 3])
       = Inr (Process ''A'' 10 0,
              (Scheduler_init [Process ''A'' 10 0, Process ''B'' 2 3])\<lparr>runnable := []\<rparr>)"
    by code_simp
  have 3: "waiting ((Scheduler_init [Process ''A'' 10 0, Process ''B'' 2 3])\<lparr>runnable := []\<rparr>)
       = [Process ''B'' 2 3]"
    by code_simp
  have 4: "sorted (map proc_key (runnable (Scheduler_init [Process ''A'' 10 0, Process ''B'' 2 3])))"
    by (simp add: Scheduler_init_def Process_def)
  from srtf_quantum [OF 1 2 3] 1 2 3 4 show ?thesis
    by (simp add: time_left_def Process_def)
qed

section \<open>Claim C2: FIFO and SJF on three processes\<close>

text \<open>
  Claim C2. The three processes P1 (5), P2 (3) and P3 (8), all arriving at 0. FIFO runs
  them in this order: completion times 5, 8, 16, wait times 0, 5, 8, averages 29/3 and
  13/3. SJF runs P2, P1, P3: completion times 3, 8, 16, wait times 0, 3, 8, averages 9
  and 11/3.
\<close>

theorem three_processes_fifo_sjf:
  "Simulator_run FIFO three_procs =
     Inr (\<lparr>done_processes =
             [(Process ''P1'' 5 0)\<lparr>processed_time := 5, comp_time := 5, wait_time := 0\<rparr>,
              (Process ''P2'' 3 0)\<lparr>processed_time := 3, comp_time := 8, wait_time := 5\<rparr>,
              (Process ''P3'' 8 0)\<lparr>processed_time := 8, comp_time := 16, wait_time := 8\<rparr>],
           runnable = [], waiting = [], time = 16,
           curr_process =
             Some ((Process ''P3'' 8 0)\<lparr>processed_time := 8, comp_time := 16, wait_time := 8\<rparr>),
           step_time_ran = 8\<rparr>,
          \<lparr>avg_comp_time = 29 / 3, avg_wait_time = 13 / 3, num_processes_ran = 3\<rparr>)
   \<and> Simulator_run SJF three_procs =
     Inr (\<lparr>done_processes =
             [(Process ''P2'' 3 0)\<lparr>processed_time := 3, comp_time := 3, wait_time := 0\<rparr>,
              (Process ''P1'' 5 0)\<lparr>processed_time := 5, comp_time := 8, wait_time := 3\<rparr>,
              (Process ''P3'' 8 0)\<lparr>processed_time := 8, comp_time := 16, wait_time := 8\<rparr>],
           runnable = [], waiting = [], time = 16,
           curr_process =
             Some ((Process ''P3'' 8 0)\<lparr>processed_time := 8, comp_time := 16, wait_time := 8\<rparr>),
           step_time_ran = 8\<rparr>,
          \<lparr>avg_comp_time = 9, avg_wait_time = 11 / 3, num_processes_ran = 3\<rparr>)"
  by code_simp

section \<open>Claim C3: finished processes\<close>

text \<open>
  Claim C3. Take a scheduler of any policy built from freshly constructed processes, at
  any point \<open>s\<close> of its run, and any later point \<open>s'\<close>. Every process of the done list
  is done, its completion time is its wait time plus its processed time, and its
  processed time is its execution time. The done list only grows at its end: a finished
  process stays in it as it was when it finished. No step touches it again, for the
  steps change queued processes only and, when the execution times are positive, no
  queued process is done.
\<close>

theorem done_processes_settled:
  assumes "list_all fresh procs" and "reachable pol procs s" and "steps pol s s'"
  shows "(\<forall>p \<in> set (done_processes s).
            is_done p \<and> comp_time p = wait_time p + processed_time p
            \<and> processed_time p = ex_time p)
         \<and> prefix (done_processes s) (done_processes s')
         \<and> (\<forall>p \<in> set (done_processes s').
              is_done p \<and> comp_time p = wait_time p + processed_time p
              \<and> processed_time p = ex_time p)
         \<and> (list_all (\<lambda>p. 0 < ex_time p) procs \<longrightarrow>
              (\<forall>p \<in> set (runnable s') \<union> set (waiting s'). \<not> is_done p))"
proof -
  have r': "reachable pol procs s'"
    using assms(2,3) by (auto simp add: reachable_def intro: steps_trans)
  have "\<forall>p \<in> set (runnable s') \<union> set (waiting s'). \<not> is_done p"
    if "list_all (\<lambda>p. 0 < ex_time p) procs"
    using reachable_not_done [OF assms(1) that r'] .
  then show ?thesis
    using reachable_ok [OF assms(1,2)] reachable_ok [OF assms(1) r'] steps_done_prefix [OF assms(3)]
    by (auto simp add: done_ok_def is_done_def)
qed

theorem done_processes_settled_witness:
  "list_all fresh three_procs
   \<and> reachable FIFO three_procs
       \<lparr>done_processes = [ran_proc 5 (Process ''P1'' 5 0)],
        runnable = [waited 5 (Process ''P2'' 3 0), waited 5 (Process ''P3'' 8 0)],
        waiting = [], time = 5, curr_process = Some (ran_proc 5 (Process ''P1'' 5 0)),
        step_time_ran = 5\<rparr>
   \<and> steps FIFO
       \<lparr>done_processes = [ran_proc 5 (Process ''P1'' 5 0)],
        runnable = [waited 5 (Process ''P2'' 3 0), waited 5 (Process ''P3'' 8 0)],
        waiting = [], time = 5, curr_process = Some (ran_proc 5 (Process ''P1'' 5 0)),
        step_time_ran = 5\<rparr>
       \<lparr>done_processes =
          [ran_proc 5 (Process ''P1'' 5 0), ran_proc 3 (waited 5 (Process ''P2'' 3 0)),
           ran_proc 8 (waited 3 (waited 5 (Process ''P3'' 8 0)))],
        runnable = [], waiting = [], time = 16,
        curr_process = Some (ran_proc 8 (waited 3 (waited 5 (Process ''P3'' 8 0)))),
        step_time_ran = 8\<rparr>
   \<and> is_done (ran_proc 5 (Process ''P1'' 5 0))
   \<and> comp_time (ran_proc 5 (Process ''P1'' 5 0))
       = wait_time (ran_proc 5 (Process ''P1'' 5 0)) + processed_time (ran_proc 5 (Process ''P1'' 5 0))
   \<and> processed_time (ran_proc 5 (Process ''P1'' 5 0)) = ex_time (ran_proc 5 (Process ''P1'' 5 0))
   \<and> prefix [ran_proc 5 (Process ''P1'' 5 0)]
        [ran_proc 5 (Process ''P1'' 5 0), ran_proc 3 (waited 5 (Process ''P2'' 3 0)),
         ran_proc 8 (waited 3 (waited 5 (Process ''P3'' 8 0)))]
   \<and> comp_time (ran_proc 8 (waited 3 (waited 5 (Process ''P3'' 8 0))))
       = wait_time (ran_proc 8 (waited 3 (waited 5 (Process ''P3'' 8 0))))
         + processed_time (ran_proc 8 (waited 3 (waited 5 (Process ''P3'' 8 0))))"
proof -
  have f: "list_all fresh three_procs" by (simp add: three_procs_def fresh_def Process_def)
  have r0: "reachable FIFO three_procs (Scheduler_init three_procs)"
    by (auto simp add: reachable_def intro: steps.intros)
  note r = reachable_step [OF r0 fifo_first_step]
  have "run_loop FIFO
       \<lparr>done_processes = [ran_proc 5 (Process ''P1'' 5 0)],
        runnable = [waited 5 (Process ''P2'' 3 0), waited 5 (Process ''P3'' 8 0)],
        waiting = [], time = 5, curr_process = Some (ran_proc 5 (Process ''P1'' 5 0)),
        step_time_ran = 5\<rparr>
     = Inr \<lparr>done_processes =
          [ran_proc 5 (Process ''P1'' 5 0), ran_proc 3 (waited 5 (Process ''P2'' 3 0)),
           ran_proc 8 (waited 3 (waited 5 (Process ''P3'' 8 0)))],
        runnable = [], waiting = [], time = 16,
        curr_process = Some (ran_proc 8 (waited 3 (waited 5 (Process ''P3'' 8 0)))),
        step_time_ran = 8\<rparr>"
    by code_simp
  from run_loop_Inr [OF this]
  have s: "steps FIFO
       \<lparr>done_processes = [ran_proc 5 (Process ''P1'' 5 0)],
        runnable = [waited 5 (Process ''P2'' 3 0), waited 5 (Process ''P3'' 8 0)],
        waiting = [], time = 5, curr_process = Some (ran_proc 5 (Process ''P1'' 5 0)),
        step_time_ran = 5\<rparr>
       \<lparr>done_processes =
          [ran_proc 5 (Process ''P1'' 5 0), ran_proc 3 (waited 5 (Process ''P2'' 3 0)),
           ran_proc 8 (waited 3 (waited 5 (Process ''P3'' 8 0)))],
        runnable = [], waiting = [], time = 16,
        curr_process = Some (ran_proc 8 (waited 3 (waited 5 (Process ''P3'' 8 0)))),
        step_time_ran = 8\<rparr>"
    by simp
  from done_processes_settled [OF f r s]
  show ?thesis using f r s by simp
qed

section \<open>Claim C4: the order within a step\<close>

text \<open>
  Claim C4 as stated fails for FIFO (and SJF, whose step is the same): the clock is
  advanced before the waits are charged and the arrivals promoted. When the first step
  on the three processes gets to charging the waits, the clock is at 5 already and no
  wait has been charged yet.
\<close>

theorem clock_before_accrual_counterexample:
  "\<not> precedes AccrueWait AdvanceClock (phases FIFO)
   \<and> \<not> precedes Arrivals AdvanceClock (phases FIFO)
   \<and> takeWhile (\<lambda>ph. ph \<noteq> AccrueWait) (phases FIFO)
       = [Select, RunCurrent, ProcessDone, AdvanceClock]
   \<and> exec_phases FIFO [Select, RunCurrent, ProcessDone, AdvanceClock] (Scheduler_init three_procs)
       = Inr \<lparr>done_processes = [ran_proc 5 (Process ''P1'' 5 0)],
              runnable = [Process ''P2'' 3 0, Process ''P3'' 8 0], waiting = [],
              time = 5, curr_process = Some (ran_proc 5 (Process ''P1'' 5 0)),
              step_time_ran = 5\<rparr>"
  by code_simp

text \<open>
  Claim C4, amended. In a step of any policy the waits are charged and the arrivals
  promoted after the quantum has been chosen and consumed, the waits first. Round-Robin
  and SRTF advance the clock by the quantum after both; FIFO and SJF advance it before
  both. In all four the wait is charged to the runnable list without the selected
  process, which gets the quantum as running time and no wait, and the clock moves by
  the quantum.
\<close>

theorem phase_order:
  "precedes Select RunCurrent (phases pol)
   \<and> precedes RunCurrent AccrueWait (phases pol)
   \<and> precedes AccrueWait Arrivals (phases pol)
   \<and> (precedes Arrivals AdvanceClock (phases pol) \<longleftrightarrow> pol \<noteq> FIFO \<and> pol \<noteq> SJF)
   \<and> (precedes AdvanceClock AccrueWait (phases pol) \<longleftrightarrow> pol = FIFO \<or> pol = SJF)
   \<and> (\<forall>s s'. step pol s = Inr s' \<longrightarrow>
         (\<exists>c s1 r. get_next_process pol s = Inr (c, s1)
            \<and> curr_process s' = Some (ran_proc (step_time_ran s') c)
            \<and> wait_time (ran_proc (step_time_ran s') c) = wait_time c
            \<and> r = foldl (\<lambda>r p. add_runnable pol p r)
                    (map (waited (step_time_ran s')) (runnable s1))
                    (arrived_list (step_time_ran s') (waiting s1))
            \<and> (runnable s' = r \<or> runnable s' = add_runnable pol (ran_proc (step_time_ran s') c) r)
            \<and> waiting s' = still_waiting (step_time_ran s') (waiting s1)
            \<and> time s' = time s1 + step_time_ran s'))"
proof -
  have 1: "precedes Select RunCurrent (phases pol) \<and> precedes RunCurrent AccrueWait (phases pol)
      \<and> precedes AccrueWait Arrivals (phases pol)"
    by (cases pol) simp_all
  have 2: "precedes Arrivals AdvanceClock (phases pol) \<longleftrightarrow> pol \<noteq> FIFO \<and> pol \<noteq> SJF"
    by (cases pol) simp_all
  have 3: "precedes AdvanceClock AccrueWait (phases pol) \<longleftrightarrow> pol = FIFO \<or> pol = SJF"
    by (cases pol) simp_all
  have 4: "\<exists>c s1 r. get_next_process pol s = Inr (c, s1)
            \<and> curr_process s' = Some (ran_proc (step_time_ran s') c)
            \<and> wait_time (ran_proc (step_time_ran s') c) = wait_time c
            \<and> r = foldl (\<lambda>r p. add_runnable pol p r)
                    (map (waited (step_time_ran s')) (runnable s1))
                    (arrived_list (step_time_ran s') (waiting s1))
            \<and> (runnable s' = r \<or> runnable s' = add_runnable pol (ran_proc (step_time_ran s') c) r)
            \<and> waiting s' = still_waiting (step_time_ran s') (waiting s1)
            \<and> time s' = time s1 + step_time_ran s'"
    if st: "step pol s = Inr s'" for s s'
  proof -
    define s0 where "s0 = get_next_process_base pol s"
    from step_Inr [OF st] obtain c rest where
      rn: "runnable s0 = c # rest" and s': "s' = after_step pol s0 c rest"
      unfolding s0_def by blast
    define s1 where "s1 = s0\<lparr>runnable := rest\<rparr>"
    have g: "get_next_process pol s = Inr (c, s1)"
      using select_base [OF rn [unfolded s0_def]] by (simp add: s1_def s0_def)
    have d: "step_time_ran s' = min (time_left c) (quantum pol s0 c)"
      by (simp add: s' after_step_def Let_def)
    have a: "curr_process s' = Some (ran_proc (step_time_ran s') c)"
      unfolding d by (simp add: s' after_step_def Let_def)
    have b: "wait_time (ran_proc (step_time_ran s') c) = wait_time c" by (simp add: ran_proc_def)
    have r: "runnable s' = foldl (\<lambda>r p. add_runnable pol p r)
                    (map (waited (step_time_ran s')) (runnable s1))
                    (arrived_list (step_time_ran s') (waiting s1))
            \<or> runnable s' = add_runnable pol (ran_proc (step_time_ran s') c)
                 (foldl (\<lambda>r p. add_runnable pol p r)
                    (map (waited (step_time_ran s')) (runnable s1))
                    (arrived_list (step_time_ran s') (waiting s1)))"
      unfolding d by (simp add: s' after_step_def Let_def s1_def)
    have w: "waiting s' = still_waiting (step_time_ran s') (waiting s1)"
      unfolding d by (simp add: s' after_step_def Let_def s1_def)
    have t: "time s' = time s1 + step_time_ran s'"
      unfolding d by (simp add: s' after_step_def Let_def s1_def)
    from g a b r w t show ?thesis by blast
  qed
  from 1 2 3 4 show ?thesis by blast
qed

theorem phase_order_witness:
  "step (RoundRobin 2) (Scheduler_init [Process ''A'' 5 0, Process ''C'' 4 0, Process ''B'' 3 1])
     = Inr \<lparr>done_processes = [],
            runnable = [waited 2 (Process ''C'' 4 0), waited 1 (Process ''B'' 3 0),
                        ran_proc 2 (Process ''A'' 5 0)],
            waiting = [], time = 2, curr_process = Some (ran_proc 2 (Process ''A'' 5 0)),
            step_time_ran = 2\<rparr>
   \<and> precedes Arrivals AdvanceClock (phases (RoundRobin 2))
   \<and> get_next_process (RoundRobin 2)
        (Scheduler_init [Process ''A'' 5 0, Process ''C'' 4 0, Process ''B'' 3 1])
       = Inr (Process ''A'' 5 0,
              (Scheduler_init [Process ''A'' 5 0, Process ''C'' 4 0, Process ''B'' 3 1])
                \<lparr>runnable := [Process ''C'' 4 0]\<rparr>)
   \<and> wait_time (ran_proc 2 (Process ''A'' 5 0)) = wait_time (Process ''A'' 5 0)"
proof -
  have 1: "step (RoundRobin 2) (Scheduler_init [Process ''A'' 5 0, Process ''C'' 4 0, Process ''B'' 3 1])
     = Inr \<lparr>done_processes = [],
            runnable = [waited 2 (Process ''C'' 4 0), waited 1 (Process ''B'' 3 0),
                        ran_proc 2 (Process ''A'' 5 0)],
            waiting = [], time = 2, curr_process = Some (ran_proc 2 (Process ''A'' 5 0)),
            step_time_ran = 2\<rparr>"
    by code_simp
  have 2: "get_next_process (RoundRobin 2)
        (Scheduler_init [Process ''A'' 5 0, Process ''C'' 4 0, Process ''B'' 3 1])
       = Inr (Process ''A'' 5 0,
              (Scheduler_init [Process ''A'' 5 0, Process ''C'' 4 0, Process ''B'' 3 1])
                \<lparr>runnable := [Process ''C'' 4 0]\<rparr>)"
    by code_simp
  from phase_order [of "RoundRobin 2"]
  have 3: "precedes Arrivals AdvanceClock (phases (RoundRobin 2))"
    and 4: "\<And>s s'. step (RoundRobin 2) s = Inr s' \<Longrightarrow>
         (\<exists>c s1. get_next_process (RoundRobin 2) s = Inr (c, s1)
            \<and> wait_time (ran_proc (step_time_ran s') c) = wait_time c)"
    by blast+
  from 4 [OF 1] 2
  have "wait_time (ran_proc 2 (Process ''A'' 5 0)) = wait_time (Process ''A'' 5 0)" by simp
  with 1 2 3 show ?thesis by simp
qed

section \<open>Claim C5: waiting for arrival\<close>

text \<open>
  Claim C5. For a duration \<open>d \<ge> 0\<close>, \<open>wait_arrival\<close> takes \<open>min arrival_time d\<close> off the
  arrival time, adds the rest of \<open>d\<close> to the wait time and to the completion time (it hands
  it to \<open>wait\<close>, which does just that), and answers true exactly when the arrival time is
  0 afterwards. With \<open>d < 0\<close> both \<open>wait\<close> and \<open>wait_arrival\<close> fail with the assertion
  "Cannot wait for negative time".
\<close>

theorem wait_arrival_spec:
  "(0 \<le> d \<longrightarrow>
      (\<exists>p' b. wait_arrival p d = Inr (p', b)
         \<and> arrival_time p' = arrival_time p - min (arrival_time p) d
         \<and> wait (p\<lparr>arrival_time := arrival_time p'\<rparr>) (d - min (arrival_time p) d) = Inr p'
         \<and> wait_time p' = wait_time p + (d - min (arrival_time p) d)
         \<and> comp_time p' = comp_time p + (d - min (arrival_time p) d)
         \<and> ex_time p' = ex_time p \<and> processed_time p' = processed_time p \<and> pid p' = pid p
         \<and> (b \<longleftrightarrow> arrival_time p' = 0)))
   \<and> (d < 0 \<longrightarrow> wait p d = Inl NegativeWait \<and> wait_arrival p d = Inl NegativeWait)"
  by (auto simp add: wait_arrival_def wait_def Let_def min_def)

theorem wait_arrival_spec_witness:
  "wait_arrival (Process ''P'' 4 10) 3 = Inr ((Process ''P'' 4 10)\<lparr>arrival_time := 7\<rparr>, False)
   \<and> wait_arrival (Process ''P'' 4 2) 3
       = Inr ((Process ''P'' 4 2)\<lparr>arrival_time := 0, wait_time := 1, comp_time := 1\<rparr>, True)
   \<and> wait (Process ''P'' 4 2) (- 1) = Inl NegativeWait
   \<and> wait_arrival (Process ''P'' 4 2) (- 1) = Inl NegativeWait"
  using wait_arrival_spec [of 3 "Process ''P'' 4 10"] wait_arrival_spec [of 3 "Process ''P'' 4 2"]
    wait_arrival_spec [of "- 1" "Process ''P'' 4 2"]
  by (auto simp add: Process_def)

section \<open>Claim C6: the stall\<close>

text \<open>
  Claim C6. With nothing runnable and \<open>p\<close> the first of the waiting processes,
  \<open>get_next_process\<close> takes \<open>p\<close> out of the waiting list, advances the clock by the arrival
  time of \<open>p\<close>, sets that arrival time to 0 and makes \<open>p\<close> runnable through \<open>add_runnable\<close>;
  the wait time of \<open>p\<close> is as before. In a state the scheduler reaches, \<open>p\<close> is the
  earliest of the waiting processes. A process alone, with a positive execution time and a
  positive arrival time (10, say), ends on the done list with wait time 0, the clock at
  its arrival time plus its execution time.
\<close>

theorem stall_promotes_first_waiting:
  assumes "runnable s = []" and "waiting s = p # ps"
  shows "get_next_process_base pol s =
           s\<lparr>waiting := ps, time := time s + arrival_time p,
             runnable := add_runnable pol (p\<lparr>arrival_time := 0\<rparr>) (runnable s)\<rparr>
         \<and> runnable (get_next_process_base pol s) = [p\<lparr>arrival_time := 0\<rparr>]
         \<and> wait_time (p\<lparr>arrival_time := 0\<rparr>) = wait_time p
         \<and> (\<forall>procs. reachable pol procs s \<longrightarrow>
               (\<forall>q \<in> set ps. arrival_time p \<le> arrival_time q \<and> \<not> Process_lt q p))
         \<and> (\<forall>i e a s0. 0 < e \<and> 0 < a \<and> init pol [Process i e a] = Inr s0 \<longrightarrow>
               (\<exists>s' st. Scheduler_run pol s0 = Inr (s', st)
                  \<and> done_processes s' = [(Process i e 0)\<lparr>processed_time := e, comp_time := e\<rparr>]
                  \<and> wait_time (hd (done_processes s')) = 0
                  \<and> time s' = a + e \<and> avg_wait_time st = 0))"
proof (intro conjI allI impI ballI)
  note b = base_stall [OF assms, of pol]
  show "get_next_process_base pol s =
           s\<lparr>waiting := ps, time := time s + arrival_time p,
             runnable := add_runnable pol (p\<lparr>arrival_time := 0\<rparr>) (runnable s)\<rparr>"
    by (simp add: b assms(1) add_runnable_Nil)
  show "runnable (get_next_process_base pol s) = [p\<lparr>arrival_time := 0\<rparr>]" by (simp add: b)
  show "wait_time (p\<lparr>arrival_time := 0\<rparr>) = wait_time p" by simp
next
  fix procs q assume r: "reachable pol procs s" and q: "q \<in> set ps"
  from reachable_waiting_ok [OF r] q have k: "proc_key p \<le> proc_key q"
    by (auto simp add: waiting_ok_def assms(2))
  then show "arrival_time p \<le> arrival_time q" by (auto simp add: proc_key_def less_eq_prod_def)
  from k show "\<not> Process_lt q p" by (simp add: Process_lt_key not_less)
next
  fix i e a s0 assume "0 < e \<and> 0 < a \<and> init pol [Process i e a] = Inr s0"
  then have "\<exists>s' st. Scheduler_run pol s0 = Inr (s', st)
           \<and> done_processes s' = [(Process i e 0)\<lparr>processed_time := e, comp_time := e\<rparr>]
           \<and> time s' = a + e \<and> avg_wait_time st = 0 \<and> avg_comp_time st = of_int e"
    using lone_process [of e a pol i s0] by blast
  then obtain s' st where 1: "Scheduler_run pol s0 = Inr (s', st)"
    and 2: "done_processes s' = [(Process i e 0)\<lparr>processed_time := e, comp_time := e\<rparr>]"
    and 3: "time s' = a + e" and 4: "avg_wait_time st = 0" by blast
  from 2 have "wait_time (hd (done_processes s')) = 0" by (simp add: Process_def)
  with 1 2 3 4 show "\<exists>s' st. Scheduler_run pol s0 = Inr (s', st)
                  \<and> done_processes s' = [(Process i e 0)\<lparr>processed_time := e, comp_time := e\<rparr>]
                  \<and> wait_time (hd (done_processes s')) = 0
                  \<and> time s' = a + e \<and> avg_wait_time st = 0" by blast
qed

theorem stall_promotes_first_waiting_witness:
  "runnable (Scheduler_init [Process ''P'' 4 10]) = []
   \<and> waiting (Scheduler_init [Process ''P'' 4 10]) = [Process ''P'' 4 10]
   \<and> get_next_process_base FIFO (Scheduler_init [Process ''P'' 4 10])
       = \<lparr>done_processes = [], runnable = [Process ''P'' 4 0], waiting = [], time = 10,
          curr_process = None, step_time_ran = 0\<rparr>
   \<and> init FIFO [Process ''P'' 4 10] = Inr (Scheduler_init [Process ''P'' 4 10])
   \<and> (\<exists>s' st. Scheduler_run FIFO (Scheduler_init [Process ''P'' 4 10]) = Inr (s', st)
         \<and> done_processes s' = [(Process ''P'' 4 0)\<lparr>processed_time := 4, comp_time := 4\<rparr>]
         \<and> wait_time (hd (done_processes s')) = 0
         \<and> time s' = 14 \<and> avg_wait_time st = 0)"
proof -
  have 1: "runnable (Scheduler_init [Process ''P'' 4 10]) = []"
    by (simp add: Scheduler_init_def Process_def)
  have 2: "waiting (Scheduler_init [Process ''P'' 4 10]) = [Process ''P'' 4 10]"
    by (simp add: Scheduler_init_def Process_def sort_procs_def)
  have 3: "init FIFO [Process ''P'' 4 10] = Inr (Scheduler_init [Process ''P'' 4 10])" by simp
  have 4: "(0::int) < 4 \<and> (0::int) < 10
           \<and> init FIFO [Process ''P'' 4 10] = Inr (Scheduler_init [Process ''P'' 4 10])"
    by simp
  note t = stall_promotes_first_waiting [OF 1 2, of FIFO]
  from t have 5: "get_next_process_base FIFO (Scheduler_init [Process ''P'' 4 10])
       = \<lparr>done_processes = [], runnable = [Process ''P'' 4 0], waiting = [], time = 10,
          curr_process = None, step_time_ran = 0\<rparr>"
    by (simp add: Scheduler_init_def Process_def)
  from t 4 have 6: "\<exists>s' st. Scheduler_run FIFO (Scheduler_init [Process ''P'' 4 10]) = Inr (s', st)
         \<and> done_processes s' = [(Process ''P'' 4 0)\<lparr>processed_time := 4, comp_time := 4\<rparr>]
         \<and> wait_time (hd (done_processes s')) = 0
         \<and> time s' = 10 + 4 \<and> avg_wait_time st = 0"
    by blast
  from 1 2 3 5 6 show ?thesis by simp
qed

section \<open>Claim C7: FIFO and SJF never interrupt\<close>



section \<open>Claim C8: the run and its statistics\<close>



section \<open>Claim C9: a stall and the other waiting processes\<close>

text \<open>
  Claim C9. When \<open>get_next_process\<close> stalls (nothing runnable, \<open>p\<close> first of the waiting
  processes), the clock advances by the arrival time of \<open>p\<close> and the other waiting
  processes are left as they are, arrival times included. In the step that stalls, their
  arrival times go down by the quantum only (each by the smaller of its arrival time and
  the quantum, in \<open>wait_arrival\<close>), while the clock has advanced by the stall and the
  quantum: their arrival is put off by the length of the stall.
\<close>

theorem stall_leaves_waiting:
  assumes "runnable s = []" and "waiting s = p # ps"
  shows "waiting (get_next_process_base pol s) = ps
         \<and> time (get_next_process_base pol s) = time s + arrival_time p
         \<and> (\<forall>s'. step pol s = Inr s' \<longrightarrow>
               time s' = time s + arrival_time p + step_time_ran s'
               \<and> waiting s' = still_waiting (step_time_ran s') ps
               \<and> map arrival_time (waiting s')
                   = drop (length (filter (\<lambda>q. arrival_time q \<le> step_time_ran s') ps))
                       (map (\<lambda>q. arrival_time q - min (arrival_time q) (step_time_ran s')) ps))"
proof (intro conjI allI impI)
  note b = base_stall [OF assms, of pol]
  show "waiting (get_next_process_base pol s) = ps" by (simp add: b)
  show "time (get_next_process_base pol s) = time s + arrival_time p" by (simp add: b)
  fix s' assume "step pol s = Inr s'"
  from step_Inr [OF this] obtain c rest where
    s': "s' = after_step pol (get_next_process_base pol s) c rest" by blast
  show "time s' = time s + arrival_time p + step_time_ran s'"
    by (simp add: s' after_step_def Let_def b)
  show w: "waiting s' = still_waiting (step_time_ran s') ps"
    by (simp add: s' after_step_def Let_def b)
  show "map arrival_time (waiting s')
          = drop (length (filter (\<lambda>q. arrival_time q \<le> step_time_ran s') ps))
              (map (\<lambda>q. arrival_time q - min (arrival_time q) (step_time_ran s')) ps)"
    by (simp add: w still_waiting_def drop_map arrived_proc_def)
qed

theorem stall_leaves_waiting_witness:
  "runnable (Scheduler_init [Process ''A'' 2 10, Process ''B'' 2 12]) = []
   \<and> waiting (Scheduler_init [Process ''A'' 2 10, Process ''B'' 2 12])
       = [Process ''A'' 2 10, Process ''B'' 2 12]
   \<and> waiting (get_next_process_base FIFO (Scheduler_init [Process ''A'' 2 10, Process ''B'' 2 12]))
       = [Process ''B'' 2 12]
   \<and> time (get_next_process_base FIFO (Scheduler_init [Process ''A'' 2 10, Process ''B'' 2 12])) = 10
   \<and> step FIFO (Scheduler_init [Process ''A'' 2 10, Process ''B'' 2 12])
       = Inr \<lparr>done_processes = [ran_proc 2 (Process ''A'' 2 0)], runnable = [],
              waiting = [Process ''B'' 2 10], time = 12,
              curr_process = Some (ran_proc 2 (Process ''A'' 2 0)), step_time_ran = 2\<rparr>"
proof -
  have r: "runnable (Scheduler_init [Process ''A'' 2 10, Process ''B'' 2 12]) = []"
    by (simp add: Scheduler_init_def Process_def)
  have w: "waiting (Scheduler_init [Process ''A'' 2 10, Process ''B'' 2 12])
       = [Process ''A'' 2 10, Process ''B'' 2 12]"
    by (simp add: Scheduler_init_def Process_def sort_procs_def proc_key_def)
  have s: "step FIFO (Scheduler_init [Process ''A'' 2 10, Process ''B'' 2 12])
       = Inr \<lparr>done_processes = [ran_proc 2 (Process ''A'' 2 0)], runnable = [],
              waiting = [Process ''B'' 2 10], time = 12,
              curr_process = Some (ran_proc 2 (Process ''A'' 2 0)), step_time_ran = 2\<rparr>"
    by code_simp
  from stall_leaves_waiting [OF r w, of FIFO] r w s show ?thesis by simp
qed

section \<open>Claim C10: Round-Robin requeues last\<close>

text \<open>
  Claim C10. In a Round-Robin step whose process is not done after its quantum, the
  runnable list afterwards is: the processes that were runnable, each charged the
  quantum as wait; then the processes that arrived during the quantum; then, last, the
  preempted process, whose wait time the step has not changed.
\<close>

theorem round_robin_requeues_last:
  assumes "step (RoundRobin ts) s = Inr s'"
    and "get_next_process (RoundRobin ts) s = Inr (c, s1)"
    and "\<not> is_done (ran_proc (min (time_left c) ts) c)"
  shows "runnable s' = map (waited (step_time_ran s')) (runnable s1)
                        @ arrived_list (step_time_ran s') (waiting s1)
                        @ [ran_proc (step_time_ran s') c]
         \<and> step_time_ran s' = min (time_left c) ts
         \<and> curr_process s' = Some (ran_proc (step_time_ran s') c)
         \<and> wait_time (ran_proc (step_time_ran s') c) = wait_time c
         \<and> done_processes s' = done_processes s"
proof -
  define s0 where "s0 = get_next_process_base (RoundRobin ts) s"
  from step_Inr [OF assms(1)] obtain c' rest where
    rn: "runnable s0 = c' # rest" and s': "s' = after_step (RoundRobin ts) s0 c' rest"
    unfolding s0_def by blast
  from select_base [OF rn [unfolded s0_def]] assms(2)
  have c: "c' = c" and s1: "s1 = s0\<lparr>runnable := rest\<rparr>" by (simp_all add: s0_def)
  have d0: "done_processes s0 = done_processes s"
    by (cases "RoundRobin ts" s rule: base_cases) (simp_all add: s0_def)
  show ?thesis
    using assms(3)
    by (simp add: s' c s1 after_step_def Let_def foldl_append_runnable ran_proc_def d0)
qed

theorem round_robin_requeues_last_witness:
  "step (RoundRobin 2) (Scheduler_init [Process ''A'' 5 0, Process ''C'' 4 0, Process ''B'' 3 1])
     = Inr \<lparr>done_processes = [],
            runnable = [waited 2 (Process ''C'' 4 0), waited 1 (Process ''B'' 3 0),
                        ran_proc 2 (Process ''A'' 5 0)],
            waiting = [], time = 2, curr_process = Some (ran_proc 2 (Process ''A'' 5 0)),
            step_time_ran = 2\<rparr>
   \<and> get_next_process (RoundRobin 2)
        (Scheduler_init [Process ''A'' 5 0, Process ''C'' 4 0, Process ''B'' 3 1])
       = Inr (Process ''A'' 5 0,
              \<lparr>done_processes = [], runnable = [Process ''C'' 4 0],
               waiting = [Process ''B'' 3 1], time = 0, curr_process = None,
               step_time_ran = 0\<rparr>)
   \<and> \<not> is_done (ran_proc (min (time_left (Process ''A'' 5 0)) 2) (Process ''A'' 5 0))
   \<and> [waited 2 (Process ''C'' 4 0), waited 1 (Process ''B'' 3 0), ran_proc 2 (Process ''A'' 5 0)]
       = map (waited 2) [Process ''C'' 4 0] @ arrived_list 2 [Process ''B'' 3 1]
         @ [ran_proc 2 (Process ''A'' 5 0)]
   \<and> wait_time (ran_proc 2 (Process ''A'' 5 0)) = wait_time (Process ''A'' 5 0)"
proof -
  have 1: "step (RoundRobin 2) (Scheduler_init [Process ''A'' 5 0, Process ''C'' 4 0, Process ''B'' 3 1])
     = Inr \<lparr>done_processes = [],
            runnable = [waited 2 (Process ''C'' 4 0), waited 1 (Process ''B'' 3 0),
                        ran_proc 2 (Process ''A'' 5 0)],
            waiting = [], time = 2, curr_process = Some (ran_proc 2 (Process ''A'' 5 0)),
            step_time_ran = 2\<rparr>"
    by code_simp
  have 2: "get_next_process (RoundRobin 2)
        (Scheduler_init [Process ''A'' 5 0, Process ''C'' 4 0, Process ''B'' 3 1])
       = Inr (Process ''A'' 5 0,
              \<lparr>done_processes = [], runnable = [Process ''C'' 4 0],
               waiting = [Process ''B'' 3 1], time = 0, curr_process = None,
               step_time_ran = 0\<rparr>)"
    by code_simp
  have 3: "\<not> is_done (ran_proc (min (time_left (Process ''A'' 5 0)) 2) (Process ''A'' 5 0))"
    by (simp add: is_done_def ran_proc_def time_left_def Process_def)
  from round_robin_requeues_last [OF 1 2 3] 1 2 3 show ?thesis by simp
qed

end
